theory Spec2Isabelle
  imports Main "HOL-Library.Word" "HOL-Library.Multiset" "HOL-Library.List_Lexorder"
    "HOL-Library.Char_ord" "HOL-Library.Product_Lexorder"
begin

unbundle bit_operations_syntax

section \<open>Common types\<close>

type_synonym byte = "8 word"

text \<open>A \<open>std::string\<close> holding binary data is a list of bytes.\<close>

type_synonym bytes = "byte list"

text \<open>
  The ways an operation can stop instead of returning: the assertions of the sources, a
  division by a sector size of zero, the exit of a command on incompatible databases,
  and an iterator stepped past the end.
\<close>

datatype error =
    Empty_key
  | Decode_failure
  | Division_by_zero
  | Invalid_configuration
  | Incompatible_databases
  | Iterator_past_end

section \<open>Binary codec (\<open>lmdb_helper\<close>, \<open>lmdb_data_codec\<close>)\<close>

text \<open>
  Modelled from the spec: the codec helpers \<open>encode_uint64_t\<close>, \<open>decode_uint64_t\<close>,
  \<open>encode_string\<close>, \<open>decode_string\<close> and \<open>encode_hash_data\<close> are declared in headers that are
  not among the sources.  The spec gives them as: a variable-length unsigned integer
  with 7 data bits per byte, low bits first, the high bit set on every byte but the last;
  a string is the variable-length integer of its length followed by its bytes; a
  hash-data entry is the source id followed by the offset index, both variable-length.
\<close>

function encode_uint64_t :: "nat \<Rightarrow> bytes" where
  "encode_uint64_t v =
     (if v < 128 then [of_nat v] else of_nat (v mod 128 + 128) # encode_uint64_t (v div 128))"
  by pat_completeness auto
termination
  by (relation "measure id") auto

declare encode_uint64_t.simps [simp del]

text \<open>
  Decoding returns the value and the rest of the buffer, or \<open>None\<close> when the buffer ends
  inside the number.
\<close>

fun decode_uint64_t :: "bytes \<Rightarrow> (nat \<times> bytes) option" where
  "decode_uint64_t [] = None"
| "decode_uint64_t (b # bs) =
     (if unat b < 128 then Some (unat b, bs)
      else (case decode_uint64_t bs of
              None \<Rightarrow> None
            | Some (v, rest) \<Rightarrow> Some (unat b - 128 + 128 * v, rest)))"

definition encode_string :: "bytes \<Rightarrow> bytes" where
  "encode_string text = encode_uint64_t (length text) @ text"

definition decode_string :: "bytes \<Rightarrow> (bytes \<times> bytes) option" where
  "decode_string p =
     (case decode_uint64_t p of
        None \<Rightarrow> None
      | Some (n, rest) \<Rightarrow> if n \<le> length rest then Some (take n rest, drop n rest) else None)"

definition encode_hash_data :: "64 word \<Rightarrow> 64 word \<Rightarrow> bytes" where
  "encode_hash_data source_id offset_index =
     encode_uint64_t (unat source_id) @ encode_uint64_t (unat offset_index)"

section \<open>Bloom filter (\<open>bloom_filter_manager_t\<close>)\<close>

text \<open>
  Modelled from the spec: \<open>bloom_filter_manager_t\<close> is not among the sources.  The spec
  gives a bit array and \<open>k\<close> hash functions derived from windows of the block hash;
  \<open>add\<close> sets the \<open>k\<close> bits of a hash and \<open>probably_contains\<close> tests them.  How a window
  becomes a bit index is not specified, so the \<open>i\<close>-th index function is a field of the
  filter.  A filter that is not in use rejects nothing.
\<close>

record bloom_filter_manager_t =
  bloom_is_used :: bool
  bloom_k_hash_functions :: nat
  bloom_index :: "nat \<Rightarrow> bytes \<Rightarrow> nat"
  bloom_bits :: "nat set"

definition add_hash_value :: "bloom_filter_manager_t \<Rightarrow> bytes \<Rightarrow> bloom_filter_manager_t" where
  "add_hash_value bf h =
     (if bloom_is_used bf
      then bf\<lparr>bloom_bits :=
                bloom_bits bf \<union> set (map (\<lambda>i. bloom_index bf i h) [0 ..< bloom_k_hash_functions bf])\<rparr>
      else bf)"

definition probably_contains :: "bloom_filter_manager_t \<Rightarrow> bytes \<Rightarrow> bool" where
  "probably_contains bf h =
     (if bloom_is_used bf
      then list_all (\<lambda>i. bloom_index bf i h \<in> bloom_bits bf) [0 ..< bloom_k_hash_functions bf]
      else True)"

section \<open>Hash store (\<open>lmdb_hash_manager_t\<close>, prefix/suffix variant)\<close>

definition masks :: "byte list" where
  "masks = [0xff, 0x80, 0xc0, 0xe0, 0xf0, 0xf8, 0xfc, 0xfe]"

text \<open>
  \<open>lmdb_changes_t\<close> is declared outside the sources at hand; the hash store increments its
  two counters \<open>hash_inserted\<close> and \<open>hash_already_present\<close>, taken here as natural numbers.
\<close>

record lmdb_changes_t =
  hash_inserted :: nat
  hash_already_present :: nat

text \<open>
  The manager: the three constants fixed by the constructor and the LMDB environment, a
  map from prefix to the encoding of the prefix's suffixes (this database holds one
  value per key, and \<open>mdb_put\<close> replaces the value of a key that exists).  The suffix
  size is the source's 32-bit \<open>int\<close>: a 32-bit word, read as signed by \<open>sint\<close>.
\<close>

record lmdb_hash_manager_t =
  prefix_bytes :: nat
  prefix_mask :: byte
  suffix_bytes :: "32 word"
  hash_env :: "bytes \<rightharpoonup> bytes"

text \<open>
  The constructor, on a new (empty) environment.  The prefix size is computed in 32-bit
  unsigned arithmetic, the suffix size is the 32-bit argument converted to \<open>int\<close> (the
  same 32 bits), and a prefix of zero bytes is refused.
\<close>

definition new_hash_manager :: "32 word \<Rightarrow> 32 word \<Rightarrow> error + lmdb_hash_manager_t" where
  "new_hash_manager p_hash_prefix_bits p_hash_suffix_bytes =
     (let pb = unat ((p_hash_prefix_bits + 7) div 8) in
      if pb = 0 then Inl Invalid_configuration
      else Inr \<lparr>prefix_bytes = pb,
                prefix_mask = masks ! unat (p_hash_prefix_bits mod 8),
                suffix_bytes = p_hash_suffix_bytes,
                hash_env = Map.empty\<rparr>)"


definition encode_data :: "bytes set \<Rightarrow> bytes" where
  "encode_data strings = concat (map encode_string (sorted_list_of_set strings))"

text \<open>
  The loop of \<open>decode_data\<close> over the rest \<open>p\<close> of the buffer; \<open>None\<close> when a string runs
  past the end of the buffer.
\<close>

function decode_strings :: "bytes \<Rightarrow> bytes set \<Rightarrow> bytes set option" where
  "decode_strings p strings =
     (if p = [] then Some strings
      else (case decode_string p of
              None \<Rightarrow> None
            | Some (s, rest) \<Rightarrow> decode_strings rest (insert s strings)))"
  by pat_completeness auto
termination
proof (relation "measure (\<lambda>(p, strings). length p)")
  show "wf (measure (\<lambda>(p, strings). length p))" by simp
next
  fix p :: bytes and strings :: "bytes set" and x2 s rest
  assume a: "decode_string p = Some x2" "(s, rest) = x2"
  have shorter: "decode_uint64_t q = Some (v, r) \<Longrightarrow> length r < length q" for q v r
  proof (induction q arbitrary: v r)
    case Nil
    then show ?case by simp
  next
    case (Cons b bs)
    then show ?case
      by (fastforce split: if_splits option.splits)
  qed
  from a have "length rest < length p"
    by (auto simp: decode_string_def split: option.splits if_splits dest!: shorter)
  then show "((rest, insert s strings), (p, strings)) \<in> measure (\<lambda>(p, strings). length p)"
    by simp
qed

declare decode_strings.simps [simp del]

text \<open>
  \<open>decode_data\<close>: the set is cleared, the loop runs, and the final check fails when the
  loop has not stopped exactly at the end of the buffer.
\<close>

definition decode_data :: "bytes \<Rightarrow> error + bytes set" where
  "decode_data encoding =
     (case decode_strings encoding {} of
        None \<Rightarrow> Inl Decode_failure
      | Some strings \<Rightarrow> Inr strings)"

text \<open>
  \<open>hash_pair\<close>: the prefix is the first \<open>prefix_bytes\<close> bytes with the last of them masked
  (a shorter hash is its own prefix, unmasked); the suffix is the last \<open>suffix_bytes\<close>
  bytes, starting no earlier than the end of the prefix.  The start of the suffix is
  computed in the source's 32-bit \<open>int\<close>, where the subtraction wraps around, and
  \<open>substr\<close> takes the suffix size as an unsigned 64-bit count, so that a negative size
  takes the rest of the hash.  Hashes are taken to be shorter than \<open>2^31\<close> bytes.
\<close>

definition hash_pair :: "lmdb_hash_manager_t \<Rightarrow> bytes \<Rightarrow> bytes \<times> bytes" where
  "hash_pair m binary_hash =
     (let hash_size = int (length binary_hash);
          prefix_size = (if hash_size > int (prefix_bytes m)
                         then prefix_bytes m else length binary_hash);
          prefix_string = take prefix_size binary_hash;
          prefix_string =
            (if prefix_size = prefix_bytes m
             then prefix_string[prefix_bytes m - 1 :=
                    prefix_string ! (prefix_bytes m - 1) AND prefix_mask m]
             else prefix_string);
          suffix_start = sint (word_of_int hash_size - suffix_bytes m :: 32 word);
          suffix_start = (if suffix_start < int prefix_size then int prefix_size
                          else suffix_start);
          suffix_string =
            (if suffix_start < hash_size
             then take (unat (scast (suffix_bytes m) :: 64 word))
                    (drop (nat suffix_start) binary_hash)
             else [])
      in (prefix_string, suffix_string))"

text \<open>
  \<open>insert\<close> of the hash store (named \<open>insert_hash\<close> here): an empty hash fails the
  assertion; a new prefix gets the encoding of its one suffix; at a prefix that exists
  the suffixes are decoded, and the suffix is either found or added and the set written
  back.
\<close>

definition insert_hash ::
  "bytes \<Rightarrow> lmdb_hash_manager_t \<times> lmdb_changes_t
     \<Rightarrow> error + lmdb_hash_manager_t \<times> lmdb_changes_t" where
  "insert_hash binary_hash mc =
     (let m = fst mc; changes = snd mc in
      if length binary_hash = 0 then Inl Empty_key
      else
        let pair = hash_pair m binary_hash in
        (case hash_env m (fst pair) of
           None \<Rightarrow>
             (let encoding = encode_data {snd pair}
              in Inr (m\<lparr>hash_env := (hash_env m)(fst pair \<mapsto> encoding)\<rparr>,
                      changes\<lparr>hash_inserted := hash_inserted changes + 1\<rparr>))
         | Some encoding \<Rightarrow>
             (case decode_data encoding of
                Inl err \<Rightarrow> Inl err
              | Inr suffix_strings \<Rightarrow>
                  if snd pair \<in> suffix_strings
                  then Inr (m, changes\<lparr>hash_already_present := hash_already_present changes + 1\<rparr>)
                  else
                    (let encoding' = encode_data (insert (snd pair) suffix_strings)
                     in Inr (m\<lparr>hash_env := (hash_env m)(fst pair \<mapsto> encoding')\<rparr>,
                             changes\<lparr>hash_inserted := hash_inserted changes + 1\<rparr>)))))"

text \<open>\<open>find\<close> of the hash store (named \<open>find_hash\<close> here).\<close>

definition find_hash :: "lmdb_hash_manager_t \<Rightarrow> bytes \<Rightarrow> error + bool" where
  "find_hash m binary_hash =
     (if length binary_hash = 0 then Inl Empty_key
      else
        let pair = hash_pair m binary_hash in
        (case hash_env m (fst pair) of
           None \<Rightarrow> Inr False
         | Some encoding \<Rightarrow>
             (case decode_data encoding of
                Inl err \<Rightarrow> Inl err
              | Inr suffix_strings \<Rightarrow> Inr (snd pair \<in> suffix_strings))))"

text \<open>A sequence of insertions, stopping where one fails.\<close>

fun insert_hashes ::
  "bytes list \<Rightarrow> lmdb_hash_manager_t \<times> lmdb_changes_t
     \<Rightarrow> error + lmdb_hash_manager_t \<times> lmdb_changes_t" where
  "insert_hashes [] mc = Inr mc"
| "insert_hashes (h # hs) mc =
     (case insert_hash h mc of
        Inl err \<Rightarrow> Inl err
      | Inr mc' \<Rightarrow> insert_hashes hs mc')"

text \<open>The suffixes stored at a prefix, as \<open>find\<close> and \<open>insert\<close> read them.\<close>

definition suffixes_at :: "lmdb_hash_manager_t \<Rightarrow> bytes \<Rightarrow> error + bytes set" where
  "suffixes_at m p = (case hash_env m p of None \<Rightarrow> Inr {} | Some enc \<Rightarrow> decode_data enc)"

text \<open>
  A store is well formed when the value at every prefix decodes, and the pairs it holds
  are the prefixes with the suffixes decoded at them.
\<close>

definition well_formed :: "lmdb_hash_manager_t \<Rightarrow> bool" where
  "well_formed m = (\<forall>p. \<exists>S. finite S \<and> suffixes_at m p = Inr S)"

definition stored_pairs :: "lmdb_hash_manager_t \<Rightarrow> (bytes \<times> bytes) set" where
  "stored_pairs m = {ps. \<exists>S. suffixes_at m (fst ps) = Inr S \<and> snd ps \<in> S}"

text \<open>Two states of a manager agree on the constants fixed by the constructor.\<close>

definition same_constants :: "lmdb_hash_manager_t \<Rightarrow> lmdb_hash_manager_t \<Rightarrow> bool" where
  "same_constants m m' =
     (prefix_bytes m' = prefix_bytes m \<and> prefix_mask m' = prefix_mask m \<and>
      suffix_bytes m' = suffix_bytes m)"

text \<open>
  A hash with the bits of its prefix cleared that \<open>hash_pair\<close> clears: byte
  \<open>prefix_bytes - 1\<close> is masked when the hash has that many bytes.
\<close>

definition masked_hash :: "lmdb_hash_manager_t \<Rightarrow> bytes \<Rightarrow> bytes" where
  "masked_hash m h =
     (if prefix_bytes m \<le> length h
      then h[prefix_bytes m - 1 := h ! (prefix_bytes m - 1) AND prefix_mask m]
      else h)"

text \<open>
  Examples: fresh counters, and the manager that the constructor gives for a prefix of
  4 bits and a suffix of one byte.
\<close>

definition example_changes :: lmdb_changes_t where
  "example_changes = \<lparr>hash_inserted = 0, hash_already_present = 0\<rparr>"

definition example_hash_manager :: lmdb_hash_manager_t where
  "example_hash_manager =
     \<lparr>prefix_bytes = 1, prefix_mask = 0xf0, suffix_bytes = 1, hash_env = Map.empty\<rparr>"

section \<open>Hash-data store (\<open>lmdb_hash_manager_t\<close>, hash-data variant)\<close>

text \<open>
  \<open>hashdb_changes_t\<close> as declared, with the counter
  \<open>hashes_not_inserted_invalid_sector_size\<close> that the hash-data \<open>insert\<close> increments and the
  declaration at hand does not list.  The counters are \<open>uint32_t\<close>.
\<close>

record hashdb_changes_t =
  hashes_inserted :: "32 word"
  hashes_not_inserted_mismatched_hash_block_size :: "32 word"
  hashes_not_inserted_invalid_byte_alignment :: "32 word"
  hashes_not_inserted_invalid_sector_size :: "32 word"
  hashes_not_inserted_exceeds_max_duplicates :: "32 word"
  hashes_not_inserted_duplicate_element :: "32 word"
  hashes_removed :: "32 word"
  hashes_not_removed_mismatched_hash_block_size :: "32 word"
  hashes_not_removed_invalid_byte_alignment :: "32 word"
  hashes_not_removed_no_hash :: "32 word"
  hashes_not_removed_no_element :: "32 word"

text \<open>The constructor \<open>hashdb_changes_t()\<close>: every counter is zero.\<close>

definition new_changes :: hashdb_changes_t where
  "new_changes =
     \<lparr>hashes_inserted = 0,
      hashes_not_inserted_mismatched_hash_block_size = 0,
      hashes_not_inserted_invalid_byte_alignment = 0,
      hashes_not_inserted_invalid_sector_size = 0,
      hashes_not_inserted_exceeds_max_duplicates = 0,
      hashes_not_inserted_duplicate_element = 0,
      hashes_removed = 0,
      hashes_not_removed_mismatched_hash_block_size = 0,
      hashes_not_removed_invalid_byte_alignment = 0,
      hashes_not_removed_no_hash = 0,
      hashes_not_removed_no_element = 0\<rparr>"

text \<open>
  The settings the insertion reads (\<open>hashdb_settings_t\<close> is declared outside the sources
  at hand; both are 32-bit unsigned fields of the settings document).
\<close>

record hashdb_settings_t =
  sector_size :: "32 word"
  hash_truncation :: "32 word"

text \<open>An element of \<open>hash_data_list_t\<close>: the fields \<open>binary_hash\<close> and \<open>file_offset\<close> that the
  insertion reads.\<close>

record hash_data_t =
  hd_binary_hash :: bytes
  hd_file_offset :: "64 word"

text \<open>
  The LMDB environment of the hash-data store is a sorted list of (key, data) pairs:
  duplicates of a key are allowed, and the pairs are kept in the order of the keys, then
  of the data (bytewise, a proper prefix first).
\<close>

type_synonym hash_data_env = "(bytes \<times> bytes) list"

record hash_data_manager_t =
  settings :: hashdb_settings_t
  bloom_filter_manager :: bloom_filter_manager_t
  env :: hash_data_env

text \<open>The key of an entry: the block hash, cut to \<open>hash_truncation\<close> bytes when that is set.\<close>

definition entry_key :: "hashdb_settings_t \<Rightarrow> hash_data_t \<Rightarrow> bytes" where
  "entry_key s e =
     (if hash_truncation s \<noteq> 0 \<and> length (hd_binary_hash e) > unat (hash_truncation s)
      then take (unat (hash_truncation s)) (hd_binary_hash e)
      else hd_binary_hash e)"

text \<open>\<open>file_offset % sector_size\<close> and \<open>file_offset / sector_size\<close>, in 64-bit arithmetic.\<close>

definition misaligned :: "hashdb_settings_t \<Rightarrow> hash_data_t \<Rightarrow> bool" where
  "misaligned s e = (hd_file_offset e mod ucast (sector_size s) \<noteq> 0)"

definition entry_data :: "hashdb_settings_t \<Rightarrow> 64 word \<Rightarrow> hash_data_t \<Rightarrow> bytes" where
  "entry_data s source_id e =
     encode_hash_data source_id (hd_file_offset e div ucast (sector_size s))"

text \<open>
  One round of the loop of the hash-data \<open>insert\<close> (named \<open>insert_hash_data\<close> here).  A
  sector size of zero makes the first division fail.  The store takes keys and data of
  any size.  \<open>MDB_GET_BOTH\<close> finds the exact (key, data) pair; after it has not, \<open>mdb_put\<close>
  with \<open>MDB_NODUPDATA\<close> adds the pair in its place.
\<close>

definition insert_entry ::
  "64 word \<Rightarrow> hash_data_t \<Rightarrow> hash_data_manager_t \<times> hashdb_changes_t
     \<Rightarrow> error + hash_data_manager_t \<times> hashdb_changes_t" where
  "insert_entry source_id e mc =
     (let m = fst mc; changes = snd mc in
      if sector_size (settings m) = 0 then Inl Division_by_zero
      else if misaligned (settings m) e
      then Inr (m, changes\<lparr>hashes_not_inserted_invalid_sector_size :=
                            hashes_not_inserted_invalid_sector_size changes + 1\<rparr>)
      else
        let key = entry_key (settings m) e;
            data = entry_data (settings m) source_id e;
            has_pair = ((key, data) \<in> set (env m))
        in
        if has_pair
        then Inr (m, changes\<lparr>hashes_not_inserted_duplicate_element :=
                              hashes_not_inserted_duplicate_element changes + 1\<rparr>)
        else Inr (m\<lparr>env := insort (key, data) (env m),
                     bloom_filter_manager :=
                       add_hash_value (bloom_filter_manager m) (hd_binary_hash e)\<rparr>,
                  changes\<lparr>hashes_inserted := hashes_inserted changes + 1\<rparr>))"

text \<open>\<open>insert\<close>: the loop over the list, stopping where a round fails.\<close>

fun insert_hash_data ::
  "64 word \<Rightarrow> hash_data_t list \<Rightarrow> hash_data_manager_t \<times> hashdb_changes_t
     \<Rightarrow> error + hash_data_manager_t \<times> hashdb_changes_t" where
  "insert_hash_data source_id [] mc = Inr mc"
| "insert_hash_data source_id (e # es) mc =
     (case insert_entry source_id e mc of
        Inl err \<Rightarrow> Inl err
      | Inr mc' \<Rightarrow> insert_hash_data source_id es mc')"

text \<open>An empty database with 512-byte sectors and a two-function bloom filter, for examples.\<close>

definition example_manager :: hash_data_manager_t where
  "example_manager =
     \<lparr>settings = \<lparr>sector_size = 512, hash_truncation = 0\<rparr>,
      bloom_filter_manager =
        \<lparr>bloom_is_used = True, bloom_k_hash_functions = 2,
         bloom_index = (\<lambda>i h. (length h + i) mod 8), bloom_bits = {}\<rparr>,
      env = []\<rparr>"

text \<open>
  Examples: an entry at offset 513, an entry at offset 0, and the example database after
  the second one has been inserted for source 1.
\<close>

definition e513 :: hash_data_t where
  "e513 = \<lparr>hd_binary_hash = [1, 2, 3], hd_file_offset = 513\<rparr>"

definition e0 :: hash_data_t where
  "e0 = \<lparr>hd_binary_hash = [1, 2, 3], hd_file_offset = 0\<rparr>"

definition example_manager_after :: hash_data_manager_t where
  "example_manager_after =
     example_manager\<lparr>env := [([1, 2, 3], [1, 0])],
       bloom_filter_manager := (bloom_filter_manager example_manager)\<lparr>bloom_bits := {3, 4}\<rparr>\<rparr>"

section \<open>JSON import (\<open>import_json_t\<close>)\<close>

text \<open>
  A parsed rapidjson value.  \<open>JNumber\<close> is an integral number, \<open>JDouble\<close> any other
  number (its value is never read by the importer).
\<close>

datatype json =
    JNull
  | JBool bool
  | JNumber int
  | JDouble
  | JString string
  | JArray "json list"
  | JObject "(string \<times> json) list"

fun IsString :: "json \<Rightarrow> bool" where
  "IsString (JString s) = True"
| "IsString _ = False"

fun IsArray :: "json \<Rightarrow> bool" where
  "IsArray (JArray xs) = True"
| "IsArray _ = False"

text \<open>\<open>IsUint64\<close>: the value is an integer that fits an unsigned 64-bit number.\<close>

fun IsUint64 :: "json \<Rightarrow> bool" where
  "IsUint64 (JNumber n) = (0 \<le> n \<and> n < 2 ^ 64)"
| "IsUint64 _ = False"

fun GetString :: "json \<Rightarrow> string" where
  "GetString (JString s) = s"
| "GetString _ = []"

fun GetUint64 :: "json \<Rightarrow> 64 word" where
  "GetUint64 (JNumber n) = word_of_int n"
| "GetUint64 _ = 0"

fun GetArray :: "json \<Rightarrow> json list" where
  "GetArray (JArray xs) = xs"
| "GetArray _ = []"

text \<open>
  The document handed to the readers is a JSON object (\<open>read_lines\<close> rejects everything
  else before it dispatches), so it is given by its member list.  \<open>HasMember\<close> and
  \<open>operator[]\<close> look a member up by name; the first member of that name is taken.
\<close>

type_synonym document = "(string \<times> json) list"

definition HasMember :: "document \<Rightarrow> string \<Rightarrow> bool" where
  "HasMember d name = (map_of d name \<noteq> None)"

definition member :: "document \<Rightarrow> string \<Rightarrow> json" where
  "member d name = (case map_of d name of Some v \<Rightarrow> v | None \<Rightarrow> JNull)"

text \<open>
  What a reader does to the outside world: calls into the import manager and
  invalid-line reports on the error stream (\<open>report_invalid_line field line\<close>), in the
  order they happen.
\<close>

datatype event =
    Insert_source_data bytes "64 word" string "64 word"
  | Insert_source_name bytes string string
  | Insert_hash bytes bytes "64 word" "64 word" string
  | Report_invalid_line string string

text \<open>
  A reader either returns or stops in rapidjson's assertion, which fires when a member is
  looked up in a value that is not an object.
\<close>

datatype outcome = Returned | Assertion_failed

fun is_report :: "event \<Rightarrow> bool" where
  "is_report (Report_invalid_line f l) = True"
| "is_report _ = False"

subsection \<open>\<open>read_source_data\<close>\<close>

text \<open>
  The loop over \<open>names\<close>, from index \<open>i\<close>.  \<open>hex_to_bin\<close> belongs to a header that is
  not part of the sources at hand and is a parameter.
\<close>

function read_names :: "bytes \<Rightarrow> string \<Rightarrow> json list \<Rightarrow> nat \<Rightarrow> event list \<times> outcome" where
  "read_names file_binary_hash line json_names i =
     (if i < length json_names then
        (case json_names ! i of
           JObject ms \<Rightarrow>
             if \<not> HasMember ms ''repository_name'' \<or> \<not> IsString (member ms ''repository_name'')
             then ([Report_invalid_line ''source data repository_name'' line], Returned)
             else if \<not> HasMember ms ''filename'' \<or> \<not> IsString (member ms ''filename'')
             then ([Report_invalid_line ''source data filename'' line], Returned)
             else
               (let r = read_names file_binary_hash line json_names (i + 1)
                in (Insert_source_name file_binary_hash
                      (GetString (member ms ''repository_name''))
                      (GetString (member ms ''filename'')) # fst r, snd r))
         | _ \<Rightarrow> ([], Assertion_failed))
      else ([], Returned))"
  by pat_completeness auto
termination
  by (relation "measure (\<lambda>(h, l, ns, i). length ns - i)") auto

declare read_names.simps [simp del]

definition read_source_data ::
  "(string \<Rightarrow> bytes) \<Rightarrow> document \<Rightarrow> string \<Rightarrow> event list \<times> outcome" where
  "read_source_data hex_to_bin d line =
     (if \<not> HasMember d ''file_hash'' \<or> \<not> IsString (member d ''file_hash'')
      then ([Report_invalid_line ''source data file_hash'' line], Returned)
      else
        let file_binary_hash = hex_to_bin (GetString (member d ''file_hash'')) in
        if \<not> HasMember d ''filesize'' \<or> \<not> IsUint64 (member d ''filesize'')
        then ([Report_invalid_line ''source data filesize'' line], Returned)
        else
          let filesize = GetUint64 (member d ''filesize'');
              file_type = (if HasMember d ''file_type'' \<and> IsString (member d ''file_type'')
                           then GetString (member d ''file_type'') else []);
              nonprobative_count =
                (if HasMember d ''nonprobative_count'' \<and> IsUint64 (member d ''nonprobative_count'')
                 then GetUint64 (member d ''nonprobative_count'') else 0);
              ev = Insert_source_data file_binary_hash filesize file_type nonprobative_count
          in
          if \<not> HasMember d ''names'' \<or> \<not> IsArray (member d ''names'')
          then ([ev, Report_invalid_line ''source data names'' line], Returned)
          else
            (let r = read_names file_binary_hash line (GetArray (member d ''names'')) 0
             in (ev # fst r, snd r)))"

subsection \<open>\<open>read_block_hash_data\<close>\<close>

text \<open>
  The loop \<open>for (i = 0; i+1 < json_pairs.Size(); i += 2)\<close>, from index \<open>i\<close>.  The index
  is a 32-bit unsigned \<open>SizeType\<close>; \<open>i + 1\<close> cannot wrap since \<open>i\<close> stays below the size.
\<close>

function read_pairs ::
  "(string \<Rightarrow> bytes) \<Rightarrow> bytes \<Rightarrow> 64 word \<Rightarrow> string \<Rightarrow> string \<Rightarrow> json list \<Rightarrow> nat
     \<Rightarrow> event list \<times> outcome" where
  "read_pairs hex_to_bin binary_hash entropy block_label line json_pairs i =
     (if i + 1 < length json_pairs then
        if \<not> IsString (json_pairs ! i)
        then ([Report_invalid_line ''block hash data source_offset_pair source hash'' line],
              Returned)
        else
          let file_binary_hash = hex_to_bin (GetString (json_pairs ! i)) in
          if \<not> IsUint64 (json_pairs ! (i + 1))
          then ([Report_invalid_line ''block hash data source_offset_pair file offset'' line],
                Returned)
          else
            (let file_offset = GetUint64 (json_pairs ! (i + 1));
                 r = read_pairs hex_to_bin binary_hash entropy block_label line json_pairs (i + 2)
             in (Insert_hash binary_hash file_binary_hash file_offset entropy block_label # fst r,
                 snd r))
      else ([], Returned))"
  by pat_completeness auto
termination
  by (relation "measure (\<lambda>(h, b, e, l, ln, ps, i). length ps - i)") auto

declare read_pairs.simps [simp del]

definition read_block_hash_data ::
  "(string \<Rightarrow> bytes) \<Rightarrow> document \<Rightarrow> string \<Rightarrow> event list \<times> outcome" where
  "read_block_hash_data hex_to_bin d line =
     (if \<not> HasMember d ''block_hash'' \<or> \<not> IsString (member d ''block_hash'')
      then ([Report_invalid_line ''block hash data block_hash'' line], Returned)
      else
        let binary_hash = hex_to_bin (GetString (member d ''block_hash''));
            entropy = (if HasMember d ''entropy'' \<and> IsUint64 (member d ''entropy'')
                       then GetUint64 (member d ''entropy'') else 0);
            block_label = (if HasMember d ''block_label'' \<and> IsString (member d ''block_label'')
                           then GetString (member d ''block_label'') else [])
        in
        if \<not> HasMember d ''source_offset_pairs'' \<or> \<not> IsArray (member d ''source_offset_pairs'')
        then ([Report_invalid_line ''block hash data source_offset_pairs'' line], Returned)
        else read_pairs hex_to_bin binary_hash entropy block_label line
               (GetArray (member d ''source_offset_pairs'')) 0)"

text \<open>The pairs of an array all have the right types: a string, then an unsigned number.\<close>

definition well_typed_pairs :: "json list \<Rightarrow> bool" where
  "well_typed_pairs ps =
     list_all (\<lambda>j. IsString (ps ! (2 * j)) \<and> IsUint64 (ps ! (2 * j + 1))) [0 ..< length ps div 2]"

text \<open>The insertion a well-typed pair \<open>j\<close> of the array leads to.\<close>

definition pair_event ::
  "(string \<Rightarrow> bytes) \<Rightarrow> bytes \<Rightarrow> 64 word \<Rightarrow> string \<Rightarrow> json list \<Rightarrow> nat \<Rightarrow> event" where
  "pair_event hex_to_bin binary_hash entropy block_label ps j =
     Insert_hash binary_hash (hex_to_bin (GetString (ps ! (2 * j))))
       (GetUint64 (ps ! (2 * j + 1))) entropy block_label"

text \<open>An element of \<open>names\<close> that passes both checks of the loop, and the call it leads to.\<close>

fun valid_name :: "json \<Rightarrow> bool" where
  "valid_name (JObject ms) =
     (HasMember ms ''repository_name'' \<and> IsString (member ms ''repository_name'') \<and>
      HasMember ms ''filename'' \<and> IsString (member ms ''filename''))"
| "valid_name _ = False"

fun is_object :: "json \<Rightarrow> bool" where
  "is_object (JObject ms) = True"
| "is_object _ = False"

fun name_event :: "bytes \<Rightarrow> json \<Rightarrow> event" where
  "name_event file_binary_hash (JObject ms) =
     Insert_source_name file_binary_hash
       (GetString (member ms ''repository_name'')) (GetString (member ms ''filename''))"
| "name_event file_binary_hash _ = Insert_source_name file_binary_hash [] []"

text \<open>The source-data call of a record whose \<open>file_hash\<close> and \<open>filesize\<close> are valid.\<close>

definition source_data_event :: "(string \<Rightarrow> bytes) \<Rightarrow> document \<Rightarrow> event" where
  "source_data_event hex_to_bin d =
     Insert_source_data (hex_to_bin (GetString (member d ''file_hash'')))
       (GetUint64 (member d ''filesize''))
       (if HasMember d ''file_type'' \<and> IsString (member d ''file_type'')
        then GetString (member d ''file_type'') else [])
       (if HasMember d ''nonprobative_count'' \<and> IsUint64 (member d ''nonprobative_count'')
        then GetUint64 (member d ''nonprobative_count'') else 0)"

text \<open>The optional fields of a block-hash record, as \<open>read_block_hash_data\<close> reads them.\<close>

definition entropy_of :: "document \<Rightarrow> 64 word" where
  "entropy_of d = (if HasMember d ''entropy'' \<and> IsUint64 (member d ''entropy'')
                   then GetUint64 (member d ''entropy'') else 0)"

definition block_label_of :: "document \<Rightarrow> string" where
  "block_label_of d = (if HasMember d ''block_label'' \<and> IsString (member d ''block_label'')
                       then GetString (member d ''block_label'') else [])"

text \<open>A stand-in for \<open>hex_to_bin\<close> in examples: the characters' codes.\<close>

definition char_codes :: "string \<Rightarrow> bytes" where
  "char_codes s = map (\<lambda>c. of_nat (of_char c)) s"

section \<open>Set-algebra commands (\<open>commands_t\<close>)\<close>

text \<open>
  Modelled from the spec: \<open>hashdb_manager_t\<close>, \<open>hashdb_element_t\<close> and \<open>hashdb_iterator_t\<close>
  are not among the sources.  Following the spec's ordered multi-valued store, a
  database is the list of its elements in iteration order (ascending by key);
  an iterator is a position in that list; \<open>map_size\<close> is the number of elements,
  \<open>find_count\<close> the number of elements with a key and \<open>find\<close> the range of the elements
  with a key.  An element is its key, a block hash, and the source data that comes
  with it.
\<close>

record 'a hashdb_element_t =
  key :: bytes
  source_data :: 'a

type_synonym 'a hashdb = "'a hashdb_element_t list"

definition map_size :: "'a hashdb \<Rightarrow> nat" where
  "map_size db = length db"

definition find_count :: "'a hashdb \<Rightarrow> bytes \<Rightarrow> nat" where
  "find_count db k = length (filter (\<lambda>e. key e = k) db)"

definition find_range :: "'a hashdb \<Rightarrow> bytes \<Rightarrow> 'a hashdb_element_t list" where
  "find_range db k = filter (\<lambda>e. key e = k) db"

text \<open>
  Modelled from the spec: \<open>hashdb_manager_t::insert\<close> into the destination.  An element
  that is already there is counted as a duplicate and not stored again; any other
  element is stored at its place in key order and counted as inserted.
\<close>

definition hashdb_insert ::
  "'a hashdb_element_t \<Rightarrow> 'a hashdb \<times> hashdb_changes_t \<Rightarrow> 'a hashdb \<times> hashdb_changes_t" where
  "hashdb_insert e dc =
     (if e \<in> set (fst dc)
      then (fst dc, (snd dc)\<lparr>hashes_not_inserted_duplicate_element :=
                                hashes_not_inserted_duplicate_element (snd dc) + 1\<rparr>)
      else (insort_key key e (fst dc),
            (snd dc)\<lparr>hashes_inserted := hashes_inserted (snd dc) + 1\<rparr>))"

subsection \<open>\<open>intersect\<close>\<close>

text \<open>
  \<open>intersect_optimized\<close>, from the iterator position \<open>it\<close> in the smaller database.  What
  inserting into the third database does is the parameter \<open>ins\<close>, applied to the state
  \<open>s\<close> of that database and its change counters.  The inner loop steps the iterator
  \<open>smaller_count\<close> times; stepping it past the end is an error.
\<close>

function intersect_loop ::
  "('a hashdb_element_t \<Rightarrow> 's \<Rightarrow> 's) \<Rightarrow> 'a hashdb \<Rightarrow> 'a hashdb \<Rightarrow> nat \<Rightarrow> 's \<Rightarrow> 's option" where
  "intersect_loop ins smaller_hashdb larger_hashdb smaller_it s =
     (if smaller_it < length smaller_hashdb then
        let larger_count = find_count larger_hashdb (key (smaller_hashdb ! smaller_it)) in
        if larger_count > 0 then
          let matching_key = key (smaller_hashdb ! smaller_it);
              smaller_count = find_count smaller_hashdb matching_key
          in
          if smaller_it + smaller_count > length smaller_hashdb then None
          else
            let s1 = fold ins (take smaller_count (drop smaller_it smaller_hashdb)) s;
                s2 = fold ins (find_range larger_hashdb matching_key) s1
            in intersect_loop ins smaller_hashdb larger_hashdb (smaller_it + smaller_count) s2
        else intersect_loop ins smaller_hashdb larger_hashdb (smaller_it + 1) s
      else Some s)"
  by pat_completeness auto
termination
proof (relation "measure (\<lambda>(ins, smaller, larger, it, s). length smaller - it)")
  show "wf (measure (\<lambda>(ins, smaller, larger, it, s). length smaller - it))" by simp
next
  fix ins :: "'a hashdb_element_t \<Rightarrow> 's \<Rightarrow> 's" and smaller larger :: "'a hashdb"
    and it :: nat and s :: 's and larger_count matching_key smaller_count s1 s2
  assume a: "it < length smaller" "matching_key = key (smaller ! it)"
    "smaller_count = find_count smaller matching_key"
  then have "smaller ! it \<in> set (filter (\<lambda>e. key e = matching_key) smaller)"
    by simp
  then have "0 < smaller_count"
    unfolding a(3) find_count_def by (metis length_pos_if_in_set)
  with a(1)
  show "((ins, smaller, larger, it + smaller_count, s2), (ins, smaller, larger, it, s))
          \<in> measure (\<lambda>(ins, smaller, larger, it, s). length smaller - it)"
    by simp
next
  fix ins :: "'a hashdb_element_t \<Rightarrow> 's \<Rightarrow> 's" and smaller larger :: "'a hashdb"
    and it :: nat and s :: 's
  assume "it < length smaller"
  then show "((ins, smaller, larger, it + 1, s), (ins, smaller, larger, it, s))
          \<in> measure (\<lambda>(ins, smaller, larger, it, s). length smaller - it)"
    by simp
qed

declare intersect_loop.simps [simp del]

definition intersect_optimized ::
  "('a hashdb_element_t \<Rightarrow> 's \<Rightarrow> 's) \<Rightarrow> 'a hashdb \<Rightarrow> 'a hashdb \<Rightarrow> 's \<Rightarrow> 's option" where
  "intersect_optimized ins smaller_hashdb larger_hashdb s =
     intersect_loop ins smaller_hashdb larger_hashdb 0 s"


text \<open>
  The databases a command has open: the directory, the block size of the settings and the
  elements.  \<open>require_compatibility\<close> makes the command exit when two of the three
  directories are the same or the block sizes differ.
\<close>

record 'a hashdb_manager_t =
  hashdb_dir :: string
  hash_block_size :: "32 word"
  elements :: "'a hashdb"

definition require_compatibility ::
  "'a hashdb_manager_t \<Rightarrow> 'a hashdb_manager_t \<Rightarrow> 'a hashdb_manager_t \<Rightarrow> bool" where
  "require_compatibility hashdb1 hashdb2 hashdb3 =
     (\<not> (hashdb_dir hashdb1 = hashdb_dir hashdb2 \<or> hashdb_dir hashdb2 = hashdb_dir hashdb3
          \<or> hashdb_dir hashdb1 = hashdb_dir hashdb3)
      \<and> \<not> (hash_block_size hashdb1 \<noteq> hash_block_size hashdb2
             \<or> hash_block_size hashdb1 \<noteq> hash_block_size hashdb3))"

text \<open>
  \<open>intersect\<close>, with the third database open: the database with fewer elements drives.
  Logging and the merging of the history files are left out.
\<close>

definition intersect ::
  "'a hashdb_manager_t \<Rightarrow> 'a hashdb_manager_t \<Rightarrow> 'a hashdb_manager_t
     \<Rightarrow> error + 'a hashdb_manager_t \<times> hashdb_changes_t" where
  "intersect manager1 manager2 manager3 =
     (if \<not> require_compatibility manager1 manager2 manager3 then Inl Incompatible_databases
      else
        let changes = new_changes;
            r = (if map_size (elements manager1) \<le> map_size (elements manager2)
                 then intersect_optimized hashdb_insert (elements manager1) (elements manager2)
                        (elements manager3, changes)
                 else intersect_optimized hashdb_insert (elements manager2) (elements manager1)
                        (elements manager3, changes))
        in case r of
             None \<Rightarrow> Inl Iterator_past_end
           | Some dc \<Rightarrow> Inr (manager3\<lparr>elements := fst dc\<rparr>, snd dc))"

subsection \<open>\<open>add_multiple\<close>\<close>

text \<open>
  Modelled from the spec: \<open>hash_t::hexdigest\<close> is not among the sources; it is the key in
  lower-case hexadecimal, two digits per byte.
\<close>

definition hex_digit :: "nat \<Rightarrow> char" where
  "hex_digit n = ''0123456789abcdef'' ! n"

definition hexdigest :: "bytes \<Rightarrow> string" where
  "hexdigest h = concat (map (\<lambda>b. [hex_digit (unat b div 16), hex_digit (unat b mod 16)]) h)"

text \<open>
  The first loop of \<open>add_multiple\<close>: while both iterators have elements, the one with the
  smaller key in hexadecimal is inserted, the first database's on a tie.  An iterator
  is the rest of its database from the iterator on; the loop returns both rests.
\<close>

fun add_multiple_both ::
  "('a hashdb_element_t \<Rightarrow> 's \<Rightarrow> 's) \<Rightarrow> 'a hashdb \<Rightarrow> 'a hashdb \<Rightarrow> 's
     \<Rightarrow> 'a hashdb \<times> 'a hashdb \<times> 's" where
  "add_multiple_both ins (e1 # it1) (e2 # it2) s =
     (if hexdigest (key e1) \<le> hexdigest (key e2)
      then add_multiple_both ins it1 (e2 # it2) (ins e1 s)
      else add_multiple_both ins (e1 # it1) it2 (ins e2 s))"
| "add_multiple_both ins it1 it2 s = (it1, it2, s)"

text \<open>The loops that insert what remains of a database that has not become depleted.\<close>

fun add_multiple_remaining :: "('a hashdb_element_t \<Rightarrow> 's \<Rightarrow> 's) \<Rightarrow> 'a hashdb \<Rightarrow> 's \<Rightarrow> 's" where
  "add_multiple_remaining ins [] s = s"
| "add_multiple_remaining ins (e # it) s = add_multiple_remaining ins it (ins e s)"

definition add_multiple_loops ::
  "('a hashdb_element_t \<Rightarrow> 's \<Rightarrow> 's) \<Rightarrow> 'a hashdb \<Rightarrow> 'a hashdb \<Rightarrow> 's \<Rightarrow> 's" where
  "add_multiple_loops ins db1 db2 s =
     (case add_multiple_both ins db1 db2 s of
        (it1, it2, s1) \<Rightarrow> add_multiple_remaining ins it2 (add_multiple_remaining ins it1 s1))"

definition add_multiple ::
  "'a hashdb_manager_t \<Rightarrow> 'a hashdb_manager_t \<Rightarrow> 'a hashdb_manager_t
     \<Rightarrow> error + 'a hashdb_manager_t \<times> hashdb_changes_t" where
  "add_multiple hashdb_manager1 hashdb_manager2 hashdb_manager3 =
     (if \<not> require_compatibility hashdb_manager1 hashdb_manager2 hashdb_manager3
      then Inl Incompatible_databases
      else
        let changes = new_changes;
            dc = add_multiple_loops hashdb_insert (elements hashdb_manager1)
                   (elements hashdb_manager2) (elements hashdb_manager3, changes)
        in Inr (hashdb_manager3\<lparr>elements := fst dc\<rparr>, snd dc))"

text \<open>The key in hexadecimal, by which \<open>add_multiple\<close> compares.\<close>

definition hexkey :: "'a hashdb_element_t \<Rightarrow> string" where
  "hexkey e = hexdigest (key e)"

text \<open>Examples: the databases A, B and an empty C of the scenarios, with one-byte keys.\<close>

definition example_element :: "nat \<Rightarrow> nat \<Rightarrow> nat hashdb_element_t" where
  "example_element k src = \<lparr>key = [of_nat k], source_data = src\<rparr>"

definition example_db :: "string \<Rightarrow> nat hashdb \<Rightarrow> nat hashdb_manager_t" where
  "example_db dir es = \<lparr>hashdb_dir = dir, hash_block_size = 4096, elements = es\<rparr>"

definition example_A :: "nat hashdb_manager_t" where
  "example_A = example_db ''A'' [example_element 1 1, example_element 2 1, example_element 3 1]"

definition example_B :: "nat hashdb_manager_t" where
  "example_B = example_db ''B'' [example_element 2 2, example_element 3 2, example_element 4 2]"

definition example_C :: "nat hashdb_manager_t" where
  "example_C = example_db ''C'' []"

section \<open>Properties of the codec and the hash store\<close>

lemma decode_encode_uint64_t: "decode_uint64_t (encode_uint64_t v @ bs) = Some (v, bs)"
proof (induction v rule: encode_uint64_t.induct)
  case (1 v)
  show ?case
  proof (cases "v < 128")
    case True
    then show ?thesis
      by (subst encode_uint64_t.simps) (simp add: unat_of_nat)
  next
    case False
    have lt: "v mod 128 + 128 < 2 ^ LENGTH(8)" by simp
    have "unat (of_nat (v mod 128 + 128) :: byte) = (v mod 128 + 128) mod 2 ^ LENGTH(8)"
      by (simp only: unat_of_nat)
    with lt have "unat (of_nat (v mod 128 + 128) :: byte) = v mod 128 + 128"
      by (simp only: mod_less)
    then show ?thesis
      using False 1 by (subst encode_uint64_t.simps) simp
  qed
qed

lemma encode_uint64_t_nonempty: "encode_uint64_t v \<noteq> []"
  by (subst encode_uint64_t.simps) simp


lemma decode_encode_string: "decode_string (encode_string s @ bs) = Some (s, bs)"
  by (simp add: decode_string_def encode_string_def decode_encode_uint64_t)

lemma encode_string_nonempty: "encode_string s \<noteq> []"
  by (simp add: encode_string_def encode_uint64_t_nonempty)

lemma decode_strings_encoded:
  "decode_strings (concat (map encode_string xs)) S = Some (S \<union> set xs)"
proof (induction xs arbitrary: S)
  case Nil
  show ?case by (subst decode_strings.simps) simp
next
  case (Cons x xs)
  show ?case
    by (subst decode_strings.simps)
      (simp add: encode_string_nonempty decode_encode_string Cons.IH)
qed

lemma decode_encode_data:
  "finite S \<Longrightarrow> decode_data (encode_data S) = Inr S"
  by (simp add: decode_data_def encode_data_def decode_strings_encoded)

lemma decode_strings_finite:
  "decode_strings p S = Some S' \<Longrightarrow> finite S \<Longrightarrow> finite S'"
proof (induction p S rule: decode_strings.induct)
  case (1 p strings)
  from "1.prems" show ?case
    by (subst (asm) decode_strings.simps)
      (auto split: if_splits option.splits dest: "1.IH")
qed

lemma decode_data_finite: "decode_data enc = Inr S \<Longrightarrow> finite S"
  by (auto simp: decode_data_def split: option.splits dest: decode_strings_finite)


lemma hash_pair_same_constants:
  "same_constants m m' \<Longrightarrow> hash_pair m' h = hash_pair m h"
  by (simp add: same_constants_def hash_pair_def Let_def)

lemma find_hash_suffixes_at:
  "h \<noteq> [] \<Longrightarrow>
   find_hash m h =
     map_sum id (\<lambda>S. snd (hash_pair m h) \<in> S) (suffixes_at m (fst (hash_pair m h)))"
  by (simp add: find_hash_def suffixes_at_def Let_def split: option.splits sum.splits)

lemma insert_hash_effect:
  assumes "insert_hash h mc = Inr mc'"
  shows "h \<noteq> [] \<and> same_constants (fst mc) (fst mc') \<and>
    (\<exists>S. suffixes_at (fst mc) (fst (hash_pair (fst mc) h)) = Inr S \<and> finite S \<and>
          suffixes_at (fst mc') (fst (hash_pair (fst mc) h)) =
            Inr (insert (snd (hash_pair (fst mc) h)) S)) \<and>
    (\<forall>p. p \<noteq> fst (hash_pair (fst mc) h) \<longrightarrow> suffixes_at (fst mc') p = suffixes_at (fst mc) p)"
proof -
  let ?m = "fst mc" and ?p = "fst (hash_pair (fst mc) h)" and ?s = "snd (hash_pair (fst mc) h)"
  from assms have ne: "h \<noteq> []"
    by (auto simp: insert_hash_def Let_def split: if_splits)
  show ?thesis
  proof (cases "hash_env ?m ?p")
    case None
    with assms ne have mc': "mc' = (?m\<lparr>hash_env := (hash_env ?m)(?p \<mapsto> encode_data {?s})\<rparr>,
                       (snd mc)\<lparr>hash_inserted := hash_inserted (snd mc) + 1\<rparr>)"
      by (auto simp: insert_hash_def Let_def)
    have "decode_data (encode_data {?s}) = Inr {?s}"
      by (rule decode_encode_data) simp
    with None ne show ?thesis
      by (simp add: mc' suffixes_at_def same_constants_def)
  next
    case (Some encoding)
    with assms ne obtain S where S: "decode_data encoding = Inr S"
      by (auto simp: insert_hash_def Let_def split: sum.splits)
    then have fin: "finite S" by (rule decode_data_finite)
    show ?thesis
    proof (cases "?s \<in> S")
      case True
      with assms ne Some S have "fst mc' = ?m"
        by (auto simp: insert_hash_def Let_def)
      with True Some S fin ne show ?thesis
        by (simp add: suffixes_at_def same_constants_def insert_absorb)
    next
      case False
      with assms ne Some S
      have mc': "mc' = (?m\<lparr>hash_env := (hash_env ?m)(?p \<mapsto> encode_data (insert ?s S))\<rparr>,
                         (snd mc)\<lparr>hash_inserted := hash_inserted (snd mc) + 1\<rparr>)"
        by (auto simp: insert_hash_def Let_def)
      from fin have "decode_data (encode_data (insert ?s S)) = Inr (insert ?s S)"
        by (intro decode_encode_data) simp
      with Some S fin ne show ?thesis
        by (simp add: mc' suffixes_at_def same_constants_def)
    qed
  qed
qed

lemma insert_hash_counted:
  assumes "insert_hash h mc = Inr mc'"
  shows "(hash_inserted (snd mc') = hash_inserted (snd mc) + 1 \<and>
          hash_already_present (snd mc') = hash_already_present (snd mc)) \<or>
         (hash_inserted (snd mc') = hash_inserted (snd mc) \<and>
          hash_already_present (snd mc') = hash_already_present (snd mc) + 1)"
  using assms
  by (auto simp: insert_hash_def Let_def split: if_splits option.splits sum.splits)

lemma insert_hash_finds:
  assumes "insert_hash h mc = Inr mc'"
  shows "find_hash (fst mc') h = Inr True"
proof -
  from insert_hash_effect [OF assms] obtain S where
    ne: "h \<noteq> []" and sc: "same_constants (fst mc) (fst mc')"
    and S: "suffixes_at (fst mc') (fst (hash_pair (fst mc) h)) =
              Inr (insert (snd (hash_pair (fst mc) h)) S)"
    by blast
  from sc have "hash_pair (fst mc') h = hash_pair (fst mc) h"
    by (rule hash_pair_same_constants)
  with ne S show ?thesis
    by (simp add: find_hash_suffixes_at)
qed

lemma insert_hash_keeps:
  assumes "insert_hash h' mc = Inr mc'" and "find_hash (fst mc) h = Inr True"
  shows "find_hash (fst mc') h = Inr True"
proof -
  from insert_hash_effect [OF assms(1)] obtain S where
    sc: "same_constants (fst mc) (fst mc')"
    and S: "suffixes_at (fst mc) (fst (hash_pair (fst mc) h')) = Inr S"
    and S': "suffixes_at (fst mc') (fst (hash_pair (fst mc) h')) =
              Inr (insert (snd (hash_pair (fst mc) h')) S)"
    and other: "\<forall>p. p \<noteq> fst (hash_pair (fst mc) h') \<longrightarrow>
                  suffixes_at (fst mc') p = suffixes_at (fst mc) p"
    by blast
  from assms(2) have ne: "h \<noteq> []"
    by (auto simp: find_hash_def split: if_splits)
  from sc have hp: "hash_pair (fst mc') h = hash_pair (fst mc) h"
    by (rule hash_pair_same_constants)
  show ?thesis
  proof (cases "fst (hash_pair (fst mc) h) = fst (hash_pair (fst mc) h')")
    case True
    with assms(2) ne S S' show ?thesis
      by (simp add: find_hash_suffixes_at hp)
  next
    case False
    with other have "suffixes_at (fst mc') (fst (hash_pair (fst mc) h)) =
        suffixes_at (fst mc) (fst (hash_pair (fst mc) h))"
      by blast
    with assms(2) ne show ?thesis
      by (simp add: find_hash_suffixes_at hp)
  qed
qed

lemma insert_hash_other:
  assumes "insert_hash h' mc = Inr mc'" and "find_hash (fst mc) h = Inr False"
    and "hash_pair (fst mc) h \<noteq> hash_pair (fst mc) h'"
  shows "find_hash (fst mc') h = Inr False"
proof -
  from insert_hash_effect [OF assms(1)] obtain S where
    sc: "same_constants (fst mc) (fst mc')"
    and S: "suffixes_at (fst mc) (fst (hash_pair (fst mc) h')) = Inr S"
    and S': "suffixes_at (fst mc') (fst (hash_pair (fst mc) h')) =
              Inr (insert (snd (hash_pair (fst mc) h')) S)"
    and other: "\<forall>p. p \<noteq> fst (hash_pair (fst mc) h') \<longrightarrow>
                  suffixes_at (fst mc') p = suffixes_at (fst mc) p"
    by blast
  from assms(2) have ne: "h \<noteq> []"
    by (auto simp: find_hash_def split: if_splits)
  from sc have hp: "hash_pair (fst mc') h = hash_pair (fst mc) h"
    by (rule hash_pair_same_constants)
  show ?thesis
  proof (cases "fst (hash_pair (fst mc) h) = fst (hash_pair (fst mc) h')")
    case True
    with assms(3) have "snd (hash_pair (fst mc) h) \<noteq> snd (hash_pair (fst mc) h')"
      by (auto simp: prod_eq_iff)
    with True assms(2) ne S S' show ?thesis
      by (simp add: find_hash_suffixes_at hp)
  next
    case False
    with other have "suffixes_at (fst mc') (fst (hash_pair (fst mc) h)) =
        suffixes_at (fst mc) (fst (hash_pair (fst mc) h))"
      by blast
    with assms(2) ne show ?thesis
      by (simp add: find_hash_suffixes_at hp)
  qed
qed

lemma insert_hashes_same_constants:
  "insert_hashes hs mc = Inr mc' \<Longrightarrow> same_constants (fst mc) (fst mc')"
proof (induction hs arbitrary: mc)
  case Nil
  then show ?case by (simp add: same_constants_def)
next
  case (Cons h hs)
  from Cons.prems obtain mc1 where 1: "insert_hash h mc = Inr mc1"
    and 2: "insert_hashes hs mc1 = Inr mc'"
    by (auto split: sum.splits)
  from insert_hash_effect [OF 1] Cons.IH [OF 2] show ?case
    by (simp add: same_constants_def)
qed

lemma insert_hashes_keeps:
  "insert_hashes hs mc = Inr mc' \<Longrightarrow> find_hash (fst mc) h = Inr True \<Longrightarrow>
   find_hash (fst mc') h = Inr True"
proof (induction hs arbitrary: mc)
  case Nil
  then show ?case by simp
next
  case (Cons h' hs)
  from Cons.prems(1) obtain mc1 where 1: "insert_hash h' mc = Inr mc1"
    and 2: "insert_hashes hs mc1 = Inr mc'"
    by (auto split: sum.splits)
  from insert_hash_keeps [OF 1 Cons.prems(2)] Cons.IH [OF 2] show ?case by blast
qed

lemma insert_hashes_other:
  "insert_hashes hs mc = Inr mc' \<Longrightarrow> find_hash (fst mc) h = Inr False \<Longrightarrow>
   \<forall>h'\<in>set hs. hash_pair (fst mc) h' \<noteq> hash_pair (fst mc) h \<Longrightarrow>
   find_hash (fst mc') h = Inr False"
proof (induction hs arbitrary: mc)
  case Nil
  then show ?case by simp
next
  case (Cons h' hs)
  from Cons.prems(1) obtain mc1 where 1: "insert_hash h' mc = Inr mc1"
    and 2: "insert_hashes hs mc1 = Inr mc'"
    by (auto split: sum.splits)
  from Cons.prems(3) have ne: "hash_pair (fst mc) h \<noteq> hash_pair (fst mc) h'"
    by auto
  have f1: "find_hash (fst mc1) h = Inr False"
    by (rule insert_hash_other [OF 1 Cons.prems(2) ne])
  from insert_hash_effect [OF 1] have sc: "same_constants (fst mc) (fst mc1)"
    by blast
  from Cons.prems(3) have "\<forall>h'\<in>set hs. hash_pair (fst mc1) h' \<noteq> hash_pair (fst mc1) h"
    by (simp add: hash_pair_same_constants [OF sc])
  from Cons.IH [OF 2 f1 this] show ?case .
qed

lemma well_formed_empty: "hash_env m = Map.empty \<Longrightarrow> well_formed m"
  by (simp add: well_formed_def suffixes_at_def)

lemma stored_pairs_empty: "hash_env m = Map.empty \<Longrightarrow> stored_pairs m = {}"
  by (simp add: stored_pairs_def suffixes_at_def)

lemma insert_hash_returns:
  assumes "well_formed (fst mc)" and "h \<noteq> []"
  shows "\<exists>mc'. insert_hash h mc = Inr mc'"
proof (cases "hash_env (fst mc) (fst (hash_pair (fst mc) h))")
  case None
  with assms(2) show ?thesis by (simp add: insert_hash_def Let_def)
next
  case (Some encoding)
  from assms(1) obtain S where "suffixes_at (fst mc) (fst (hash_pair (fst mc) h)) = Inr S"
    unfolding well_formed_def by blast
  with Some have "decode_data encoding = Inr S" by (simp add: suffixes_at_def)
  with Some assms(2) show ?thesis by (simp add: insert_hash_def Let_def)
qed

lemma insert_hash_well_formed:
  assumes "insert_hash h mc = Inr mc'" and "well_formed (fst mc)"
  shows "well_formed (fst mc')"
  unfolding well_formed_def
proof
  fix p
  from insert_hash_effect [OF assms(1)] obtain S where
    S: "finite S" "suffixes_at (fst mc') (fst (hash_pair (fst mc) h)) =
            Inr (insert (snd (hash_pair (fst mc) h)) S)"
    and other: "\<forall>p. p \<noteq> fst (hash_pair (fst mc) h) \<longrightarrow>
                  suffixes_at (fst mc') p = suffixes_at (fst mc) p"
    by blast
  show "\<exists>S. finite S \<and> suffixes_at (fst mc') p = Inr S"
  proof (cases "p = fst (hash_pair (fst mc) h)")
    case True
    with S show ?thesis by simp
  next
    case False
    with other have "suffixes_at (fst mc') p = suffixes_at (fst mc) p" by blast
    with assms(2) show ?thesis by (simp add: well_formed_def)
  qed
qed

lemma insert_hash_stored_pairs:
  assumes "insert_hash h mc = Inr mc'"
  shows "stored_pairs (fst mc') = insert (hash_pair (fst mc) h) (stored_pairs (fst mc))"
proof -
  let ?p = "fst (hash_pair (fst mc) h)" and ?s = "snd (hash_pair (fst mc) h)"
  from insert_hash_effect [OF assms] obtain S where
    S: "suffixes_at (fst mc) ?p = Inr S" "suffixes_at (fst mc') ?p = Inr (insert ?s S)"
    and other: "\<forall>p. p \<noteq> ?p \<longrightarrow> suffixes_at (fst mc') p = suffixes_at (fst mc) p"
    by blast
  have "(ps \<in> stored_pairs (fst mc')) =
      (ps \<in> insert (hash_pair (fst mc) h) (stored_pairs (fst mc)))" for ps
  proof (cases "fst ps = ?p")
    case True
    with S show ?thesis
      by (cases ps) (auto simp: stored_pairs_def prod_eq_iff)
  next
    case False
    with other have "suffixes_at (fst mc') (fst ps) = suffixes_at (fst mc) (fst ps)" by blast
    with False show ?thesis
      by (auto simp: stored_pairs_def)
  qed
  then show ?thesis by blast
qed

lemma find_hash_stored_pairs:
  assumes "well_formed m" and "h \<noteq> []"
  shows "find_hash m h = Inr (hash_pair m h \<in> stored_pairs m)"
proof -
  from assms(1) obtain S where S: "suffixes_at m (fst (hash_pair m h)) = Inr S"
    unfolding well_formed_def by blast
  then have "(hash_pair m h \<in> stored_pairs m) = (snd (hash_pair m h) \<in> S)"
    by (simp add: stored_pairs_def)
  with S assms(2) show ?thesis
    by (simp add: find_hash_suffixes_at)
qed

lemma insert_hashes_returns:
  "well_formed (fst mc) \<Longrightarrow> [] \<notin> set hs \<Longrightarrow>
   \<exists>mc'. insert_hashes hs mc = Inr mc' \<and> well_formed (fst mc') \<and>
         same_constants (fst mc) (fst mc') \<and>
         stored_pairs (fst mc') = stored_pairs (fst mc) \<union> hash_pair (fst mc) ` set hs"
proof (induction hs arbitrary: mc)
  case Nil
  then show ?case by (simp add: same_constants_def)
next
  case (Cons h hs)
  from Cons.prems have ne: "h \<noteq> []" and rest: "[] \<notin> set hs" by auto
  from insert_hash_returns [OF Cons.prems(1) ne] obtain mc1 where
    1: "insert_hash h mc = Inr mc1" by blast
  have wf1: "well_formed (fst mc1)" by (rule insert_hash_well_formed [OF 1 Cons.prems(1)])
  from insert_hash_effect [OF 1] have sc1: "same_constants (fst mc) (fst mc1)" by blast
  have hp: "hash_pair (fst mc1) x = hash_pair (fst mc) x" for x
    by (rule hash_pair_same_constants [OF sc1])
  from Cons.IH [OF wf1 rest] obtain mc' where
    2: "insert_hashes hs mc1 = Inr mc'" "well_formed (fst mc')"
    "same_constants (fst mc1) (fst mc')"
    "stored_pairs (fst mc') = stored_pairs (fst mc1) \<union> hash_pair (fst mc1) ` set hs"
    by blast
  from sc1 2(3) have sc: "same_constants (fst mc) (fst mc')"
    by (simp add: same_constants_def)
  have st: "stored_pairs (fst mc') = stored_pairs (fst mc) \<union> hash_pair (fst mc) ` set (h # hs)"
    by (simp add: 2(4) insert_hash_stored_pairs [OF 1] hp)
  from 1 2(1,2) sc st show ?case by simp
qed



lemma sint_word_of_int_32:
  "- (2 ^ 31) \<le> d \<Longrightarrow> d < 2 ^ 31 \<Longrightarrow> sint (word_of_int d :: 32 word) = d"
  by (simp add: sint_sbintrunc' signed_take_bit_int_eq_self)

lemma sint_word_of_int_32_less: "sint (word_of_int d :: 32 word) < 2 ^ 31"
  using sint_lt [of "word_of_int d :: 32 word"] by simp

lemma uint_word_of_int_64:
  "0 \<le> k \<Longrightarrow> k < 2 ^ 64 \<Longrightarrow> uint (word_of_int k :: 64 word) = k"
  by (simp add: uint_word_of_int)

lemma suffix_start_below:
  fixes s :: "32 word"
  assumes "int n - sint s < int p" and "0 < sint s"
  shows "sint (word_of_int (int n) - s :: 32 word) < int p"
proof -
  define d where "d = int n - sint s"
  have eq: "(word_of_int (int n) - s :: 32 word) = word_of_int d"
    unfolding d_def by simp
  have low: "- (2 ^ 31) \<le> d" using sint_lt [of s] by (simp add: d_def)
  from assms(1) have dp: "d < int p" by (simp add: d_def)
  show ?thesis
  proof (cases "d < 2 ^ 31")
    case True
    from sint_word_of_int_32 [OF low True] dp show ?thesis by (simp only: eq)
  next
    case False
    with dp have "2 ^ 31 < int p" by simp
    with sint_word_of_int_32_less [of d] show ?thesis by (simp only: eq)
  qed
qed

lemma substr_count_positive:
  fixes s :: "32 word"
  assumes "0 \<le> sint s"
  shows "unat (scast s :: 64 word) = nat (sint s)"
proof -
  define k where "k = sint s"
  have "k < 2 ^ 31" using sint_lt [of s] by (simp add: k_def)
  then have "k < 2 ^ 64" by simp
  with assms have "uint (word_of_int k :: 64 word) = k"
    by (intro uint_word_of_int_64) (simp_all add: k_def)
  moreover have "(scast s :: 64 word) = word_of_int k"
    unfolding k_def by (rule scast_eq)
  ultimately have "uint (scast s :: 64 word) = k" by (simp only:)
  then show ?thesis
    by (simp only: unat_eq_nat_uint k_def)
qed

lemma find_hash_empty:
  "h \<noteq> [] \<Longrightarrow> hash_env m = Map.empty \<Longrightarrow> find_hash m h = Inr False"
  by (simp add: find_hash_def Let_def)

lemma new_hash_manager_empty:
  "new_hash_manager bits sb = Inr m \<Longrightarrow> hash_env m = Map.empty \<and> 0 < prefix_bytes m"
  by (auto simp: new_hash_manager_def Let_def split: if_splits)

lemma hash_pair_short:
  assumes "0 < prefix_bytes m"
    and "int (length h) < int (prefix_bytes m) + sint (suffix_bytes m)"
  shows "hash_pair m h = (take (prefix_bytes m) (masked_hash m h), drop (prefix_bytes m) h)"
proof -
  let ?p = "prefix_bytes m" and ?n = "length h"
  let ?w = "sint (word_of_int (int ?n) - suffix_bytes m :: 32 word)"
  consider (lt) "?n < ?p" | (eq) "?n = ?p" | (gt) "?p < ?n" by linarith
  then show ?thesis
  proof cases
    case lt
    have "\<not> (if ?w < int ?n then int ?n else ?w) < int ?n" by simp
    with lt assms(1) show ?thesis
      by (simp add: hash_pair_def masked_hash_def Let_def)
  next
    case eq
    have "\<not> (if ?w < int ?n then int ?n else ?w) < int ?n" by simp
    with eq assms(1) show ?thesis
      by (simp add: hash_pair_def masked_hash_def Let_def)
  next
    case gt
    from gt assms(2) have pos: "0 < sint (suffix_bytes m)" by simp
    from assms(2) have "int ?n - sint (suffix_bytes m) < int ?p" by simp
    from suffix_start_below [OF this pos] have w: "?w < int ?p" .
    from pos have cnt: "unat (scast (suffix_bytes m) :: 64 word) = nat (sint (suffix_bytes m))"
      by (intro substr_count_positive) simp
    from gt assms(2) have "length (drop ?p h) \<le> nat (sint (suffix_bytes m))" by simp
    then have tk: "take (unat (scast (suffix_bytes m) :: 64 word)) (drop ?p h) = drop ?p h"
      by (simp only: cnt take_all)
    from gt assms have idx: "?p - 1 < ?p" by simp
    have upd: "take ?p (h[?p - 1 := h ! (?p - 1) AND prefix_mask m]) =
        (take ?p h)[?p - 1 := take ?p h ! (?p - 1) AND prefix_mask m]"
      using idx by (simp add: take_update_swap)
    from gt w tk upd show ?thesis
      by (simp add: hash_pair_def masked_hash_def Let_def)
  qed
qed

lemma hash_pair_short_append:
  assumes "0 < prefix_bytes m"
    and "int (length h) < int (prefix_bytes m) + sint (suffix_bytes m)"
  shows "fst (hash_pair m h) @ snd (hash_pair m h) = masked_hash m h"
proof -
  have "drop (prefix_bytes m) (masked_hash m h) = drop (prefix_bytes m) h"
    using assms(1) by (simp add: masked_hash_def)
  then have "take (prefix_bytes m) (masked_hash m h) @ drop (prefix_bytes m) h = masked_hash m h"
    by (metis append_take_drop_id)
  then show ?thesis
    by (simp add: hash_pair_short [OF assms])
qed

lemma masked_hash_full_mask: "prefix_mask m = 0xff \<Longrightarrow> masked_hash m h = h"
proof -
  have "(x :: byte) AND 0xff = x" for x
  proof -
    have "(0xff :: byte) = - 1" by simp
    then show ?thesis by (simp only: and.right_neutral)
  qed
  then show "prefix_mask m = 0xff \<Longrightarrow> masked_hash m h = h"
    by (simp add: masked_hash_def)
qed

lemma example_hash_manager_new: "new_hash_manager 4 1 = Inr example_hash_manager"
  by (simp add: new_hash_manager_def example_hash_manager_def masks_def Let_def)

lemma example_insert:
  "insert_hash [1] (example_hash_manager, example_changes) =
     Inr (example_hash_manager\<lparr>hash_env := [[0] \<mapsto> [0]]\<rparr>, example_changes\<lparr>hash_inserted := 1\<rparr>)"
  by (simp add: insert_hash_def example_hash_manager_def example_changes_def hash_pair_def
      encode_data_def encode_string_def encode_uint64_t.simps Let_def)

lemma decode_data_0: "decode_data [0] = Inr {[]}"
  by (simp add: decode_data_def decode_strings.simps decode_string_def)

lemma example_insert_twice:
  "insert_hashes [[3]] (example_hash_manager\<lparr>hash_env := [[0] \<mapsto> [0]]\<rparr>,
      example_changes\<lparr>hash_inserted := 1\<rparr>) =
     Inr (example_hash_manager\<lparr>hash_env := [[0] \<mapsto> [0]]\<rparr>,
          example_changes\<lparr>hash_inserted := 1, hash_already_present := 1\<rparr>)"
  by (simp add: insert_hash_def example_hash_manager_def example_changes_def hash_pair_def
      decode_data_0 Let_def)

text \<open>
  C3 (amended).  For a hash shorter than \<open>prefix_bytes + suffix_bytes\<close> the suffix starts
  where the prefix ends: the pair is the masked prefix and all the bytes after it.  Two
  such hashes that differ after masking are kept apart: when \<open>find\<close> of the one is false,
  inserting the other leaves it false.  With a prefix of whole bytes (mask \<open>0xff\<close>)
  masking changes nothing, so any two distinct such hashes are kept apart.
\<close>

theorem short_hashes_distinguished:
  assumes "0 < prefix_bytes (fst mc)"
    and "int (length h1) < int (prefix_bytes (fst mc)) + sint (suffix_bytes (fst mc))"
    and "int (length h2) < int (prefix_bytes (fst mc)) + sint (suffix_bytes (fst mc))"
    and "masked_hash (fst mc) h1 \<noteq> masked_hash (fst mc) h2"
    and "find_hash (fst mc) h2 = Inr False"
    and "insert_hash h1 mc = Inr mc'"
  shows "find_hash (fst mc') h2 = Inr False
       \<and> hash_pair (fst mc) h1 =
           (take (prefix_bytes (fst mc)) (masked_hash (fst mc) h1),
            drop (prefix_bytes (fst mc)) h1)
       \<and> (prefix_mask (fst mc) = 0xff \<longrightarrow>
            masked_hash (fst mc) h1 = h1 \<and> masked_hash (fst mc) h2 = h2)"
proof -
  from assms(4) hash_pair_short_append [OF assms(1,2)] hash_pair_short_append [OF assms(1,3)]
  have "hash_pair (fst mc) h2 \<noteq> hash_pair (fst mc) h1" by metis
  from insert_hash_other [OF assms(6,5) this] hash_pair_short [OF assms(1,2)]
    masked_hash_full_mask [of "fst mc"]
  show ?thesis by simp
qed

theorem short_hashes_distinguished_witness:
  "find_hash (example_hash_manager\<lparr>hash_env := [[0] \<mapsto> [0]]\<rparr>) [0x11] = Inr False"
proof -
  let ?mc = "(example_hash_manager, example_changes)"
  have 1: "0 < prefix_bytes (fst ?mc)" by (simp add: example_hash_manager_def)
  have 2: "int (length [1 :: byte]) < int (prefix_bytes (fst ?mc)) + sint (suffix_bytes (fst ?mc))"
    and 3: "int (length [0x11 :: byte]) < int (prefix_bytes (fst ?mc)) + sint (suffix_bytes (fst ?mc))"
    by (simp_all add: example_hash_manager_def)
  have 4: "masked_hash (fst ?mc) [1] \<noteq> masked_hash (fst ?mc) [0x11]"
    by (simp add: masked_hash_def example_hash_manager_def)
  have 5: "find_hash (fst ?mc) [0x11] = Inr False"
    by (simp add: find_hash_def example_hash_manager_def hash_pair_def Let_def)
  from short_hashes_distinguished [OF 1 2 3 4 5 example_insert] show ?thesis
    by simp
qed

text \<open>
  With a prefix of 4 bits and a suffix of one byte, the one-byte hashes \<open>01\<close> and \<open>02\<close>
  are shorter than prefix plus suffix and distinct, and inserting the first makes \<open>find\<close>
  of the second true.
\<close>

theorem short_hashes_collide_counterexample:
  "new_hash_manager 4 1 = Inr example_hash_manager \<and>
   int (length [1 :: byte]) < int (prefix_bytes example_hash_manager) + sint (suffix_bytes example_hash_manager) \<and>
   int (length [2 :: byte]) < int (prefix_bytes example_hash_manager) + sint (suffix_bytes example_hash_manager) \<and>
   [1 :: byte] \<noteq> [2] \<and>
   find_hash example_hash_manager [2] = Inr False \<and>
   insert_hash [1] (example_hash_manager, example_changes) =
     Inr (example_hash_manager\<lparr>hash_env := [[0] \<mapsto> [0]]\<rparr>, example_changes\<lparr>hash_inserted := 1\<rparr>) \<and>
   find_hash (example_hash_manager\<lparr>hash_env := [[0] \<mapsto> [0]]\<rparr>) [2] = Inr True"
proof -
  have a: "find_hash example_hash_manager [2] = Inr False"
    by (simp add: find_hash_def example_hash_manager_def hash_pair_def Let_def)
  have b: "find_hash (example_hash_manager\<lparr>hash_env := [[0] \<mapsto> [0]]\<rparr>) [2] = Inr True"
    by (simp add: find_hash_def example_hash_manager_def hash_pair_def Let_def decode_data_0)
  have c: "int (length [1 :: byte]) < int (prefix_bytes example_hash_manager) + sint (suffix_bytes example_hash_manager)"
    "int (length [2 :: byte]) < int (prefix_bytes example_hash_manager) + sint (suffix_bytes example_hash_manager)"
    by (simp_all add: example_hash_manager_def)
  from a b c example_insert example_hash_manager_new show ?thesis by simp
qed

lemma hash_pair_wraps:
  "new_hash_manager 4 0x80000000 = Inr m \<Longrightarrow> hash_pair m [1, 2, 3] = ([0], [2, 3])"
  by (auto simp: new_hash_manager_def masks_def hash_pair_def Let_def)

text \<open>
  C2 (amended).  For every configuration the constructor accepts and every sequence of
  non-empty hashes, the insertions return, and afterwards \<open>find\<close> of a non-empty hash is
  true exactly when its (prefix, suffix) pair is the pair of an inserted hash: false when
  the pair differs from the pair of every inserted hash, true when it is shared with one.
\<close>

theorem find_hash_iff_pair_inserted:
  assumes "new_hash_manager bits sb = Inr m" and "[] \<notin> set hs" and "h \<noteq> []"
  shows "\<exists>mc'. insert_hashes hs (m, c) = Inr mc' \<and>
           find_hash (fst mc') h = Inr (hash_pair m h \<in> hash_pair m ` set hs)"
proof -
  from assms(1) have e: "hash_env m = Map.empty" by (simp add: new_hash_manager_empty)
  then have wf: "well_formed (fst (m, c))" by (simp add: well_formed_empty)
  from insert_hashes_returns [OF wf assms(2)] obtain mc' where
    r: "insert_hashes hs (m, c) = Inr mc'" and wf': "well_formed (fst mc')"
    and sc: "same_constants (fst (m, c)) (fst mc')"
    and st: "stored_pairs (fst mc') =
               stored_pairs (fst (m, c)) \<union> hash_pair (fst (m, c)) ` set hs"
    by (elim exE conjE)
  from sc have hp: "hash_pair (fst mc') h = hash_pair m h"
    using hash_pair_same_constants [of "fst (m, c)" "fst mc'" h] by simp
  from st e have st': "stored_pairs (fst mc') = hash_pair m ` set hs"
    by (simp add: stored_pairs_empty)
  have "find_hash (fst mc') h = Inr (hash_pair m h \<in> hash_pair m ` set hs)"
    using find_hash_stored_pairs [OF wf' assms(3)] by (simp only: hp st')
  with r show ?thesis by (intro exI conjI)
qed

theorem find_hash_iff_pair_inserted_witness:
  "\<exists>mc'. insert_hashes [[1]] (example_hash_manager, example_changes) = Inr mc' \<and>
     find_hash (fst mc') [0x11] = Inr False"
proof -
  have ne: "[] \<notin> set [[1 :: byte]]" "[0x11 :: byte] \<noteq> []" by simp_all
  have p: "(hash_pair example_hash_manager [0x11] \<in> hash_pair example_hash_manager ` set [[1]])
      = False"
    by (simp add: hash_pair_def example_hash_manager_def Let_def)
  from find_hash_iff_pair_inserted [OF example_hash_manager_new ne, of example_changes]
  show ?thesis by (simp only: p)
qed

text \<open>
  With a prefix of 4 bits, the hash \<open>02\<close> has the pair of the hash \<open>01\<close>: after \<open>01\<close>
  alone has been inserted, \<open>find\<close> of \<open>02\<close> is true.
\<close>

theorem find_hash_false_positive_counterexample:
  "new_hash_manager 4 1 = Inr example_hash_manager \<and>
   insert_hashes [[1]] (example_hash_manager, example_changes) =
     Inr (example_hash_manager\<lparr>hash_env := [[0] \<mapsto> [0]]\<rparr>, example_changes\<lparr>hash_inserted := 1\<rparr>) \<and>
   [2] \<notin> set [[1 :: byte]] \<and>
   find_hash (example_hash_manager\<lparr>hash_env := [[0] \<mapsto> [0]]\<rparr>) [2] = Inr True"
proof -
  have b: "find_hash (example_hash_manager\<lparr>hash_env := [[0] \<mapsto> [0]]\<rparr>) [2] = Inr True"
    by (simp add: find_hash_def example_hash_manager_def hash_pair_def Let_def decode_data_0)
  from b example_insert example_hash_manager_new show ?thesis by simp
qed

section \<open>Properties of the hash-data store\<close>

lemma insert_entry_settings:
  "insert_entry sid e mc = Inr mc' \<Longrightarrow> settings (fst mc') = settings (fst mc)"
  by (auto simp: insert_entry_def Let_def split: if_splits)

lemma insert_hash_data_settings:
  "insert_hash_data sid es mc = Inr mc' \<Longrightarrow> settings (fst mc') = settings (fst mc)"
proof (induction es arbitrary: mc)
  case Nil
  then show ?case by simp
next
  case (Cons e es)
  then show ?case
    by (auto split: sum.splits dest!: insert_entry_settings)
qed

lemma insert_hash_data_append:
  "insert_hash_data sid (es1 @ es2) mc =
     (case insert_hash_data sid es1 mc of
        Inl err \<Rightarrow> Inl err
      | Inr mc1 \<Rightarrow> insert_hash_data sid es2 mc1)"
  by (induction es1 arbitrary: mc) (auto split: sum.splits)

lemma probably_contains_add: "probably_contains (add_hash_value bf h) h"
  by (simp add: probably_contains_def add_hash_value_def list_all_iff)

lemma probably_contains_add_mono:
  "probably_contains bf h \<Longrightarrow> probably_contains (add_hash_value bf h') h"
  by (auto simp: probably_contains_def add_hash_value_def list_all_iff)

lemma insert_entry_bloom_mono:
  "insert_entry sid e mc = Inr mc' \<Longrightarrow> probably_contains (bloom_filter_manager (fst mc)) h \<Longrightarrow>
   probably_contains (bloom_filter_manager (fst mc')) h"
  by (auto simp: insert_entry_def Let_def probably_contains_add_mono split: if_splits)

lemma insert_hash_data_bloom_mono:
  "insert_hash_data sid es mc = Inr mc' \<Longrightarrow> probably_contains (bloom_filter_manager (fst mc)) h \<Longrightarrow>
   probably_contains (bloom_filter_manager (fst mc')) h"
proof (induction es arbitrary: mc)
  case Nil
  then show ?case by simp
next
  case (Cons e es)
  from Cons.prems(1) obtain mc1 where 1: "insert_entry sid e mc = Inr mc1"
    and 2: "insert_hash_data sid es mc1 = Inr mc'"
    by (auto split: sum.splits)
  from insert_entry_bloom_mono [OF 1 Cons.prems(2)] Cons.IH [OF 2] show ?case by blast
qed

lemma insert_entry_bloom_added:
  assumes "insert_entry sid e mc = Inr mc'"
    and "\<not> misaligned (settings (fst mc)) e"
    and "(entry_key (settings (fst mc)) e, entry_data (settings (fst mc)) sid e) \<notin> set (env (fst mc))"
  shows "probably_contains (bloom_filter_manager (fst mc')) (hd_binary_hash e)
       \<and> hashes_inserted (snd mc') = hashes_inserted (snd mc) + 1"
  using assms
  by (auto simp: insert_entry_def Let_def probably_contains_add split: if_splits)

lemma example_insert_data:
  "insert_hash_data 1 [e0] (example_manager, new_changes) =
     Inr (example_manager_after, new_changes\<lparr>hashes_inserted := 1\<rparr>)"
  by (simp add: insert_entry_def example_manager_def example_manager_after_def new_changes_def
      e0_def misaligned_def entry_key_def entry_data_def encode_hash_data_def
      encode_uint64_t.simps add_hash_value_def Let_def) auto

lemma insert_entry_invalid_count:
  "insert_entry sid e mc = Inr mc' \<Longrightarrow>
   hashes_not_inserted_invalid_sector_size (snd mc') =
     hashes_not_inserted_invalid_sector_size (snd mc) +
       (if misaligned (settings (fst mc)) e then 1 else 0)"
  by (auto simp: insert_entry_def Let_def split: if_splits)

lemma insert_hash_data_invalid_count:
  "insert_hash_data sid es mc = Inr mc' \<Longrightarrow>
   hashes_not_inserted_invalid_sector_size (snd mc') =
     hashes_not_inserted_invalid_sector_size (snd mc) +
       of_nat (length (filter (misaligned (settings (fst mc))) es))"
proof (induction es arbitrary: mc)
  case Nil
  then show ?case by simp
next
  case (Cons e es)
  from Cons.prems obtain mc1 where 1: "insert_entry sid e mc = Inr mc1"
    and 2: "insert_hash_data sid es mc1 = Inr mc'"
    by (auto split: sum.splits)
  from insert_entry_settings [OF 1] insert_entry_invalid_count [OF 1] Cons.IH [OF 2]
  show ?case by simp
qed

lemma e513_misaligned: "misaligned (settings example_manager) e513"
  by (simp add: misaligned_def example_manager_def e513_def)

lemma insert_entry_distinct:
  "insert_entry sid e mc = Inr mc' \<Longrightarrow> distinct (env (fst mc)) \<Longrightarrow> distinct (env (fst mc'))"
  by (auto simp: insert_entry_def Let_def distinct_insort split: if_splits)

lemma insert_hash_data_distinct:
  "insert_hash_data sid es mc = Inr mc' \<Longrightarrow> distinct (env (fst mc)) \<Longrightarrow>
   distinct (env (fst mc'))"
proof (induction es arbitrary: mc)
  case Nil
  then show ?case by simp
next
  case (Cons e es)
  from Cons.prems(1) obtain mc1 where 1: "insert_entry sid e mc = Inr mc1"
    and 2: "insert_hash_data sid es mc1 = Inr mc'"
    by (auto split: sum.splits)
  from insert_entry_distinct [OF 1 Cons.prems(2)] Cons.IH [OF 2] show ?case by blast
qed

lemma insert_hash_data_returns:
  "sector_size (settings (fst mc)) \<noteq> 0 \<Longrightarrow> \<exists>mc'. insert_hash_data sid es mc = Inr mc'"
proof (induction es arbitrary: mc)
  case Nil
  then show ?case by simp
next
  case (Cons e es)
  from Cons.prems have "\<exists>mc1. insert_entry sid e mc = Inr mc1"
    by (simp add: insert_entry_def Let_def)
  then obtain mc1 where 1: "insert_entry sid e mc = Inr mc1" by (elim exE)
  from insert_entry_settings [OF 1] Cons.prems
  have "sector_size (settings (fst mc1)) \<noteq> 0" by simp
  from Cons.IH [OF this] 1 show ?case by simp
qed

lemma inserted_hash_found_from:
  assumes "insert_hash h mc = Inr mc1" and "insert_hashes hs mc1 = Inr mc2"
  shows "h \<noteq> [] \<and> find_hash (fst mc1) h = Inr True \<and> find_hash (fst mc2) h = Inr True \<and>
      (hash_inserted (snd mc1) = hash_inserted (snd mc) + 1 \<and>
         hash_already_present (snd mc1) = hash_already_present (snd mc)
       \<or> hash_inserted (snd mc1) = hash_inserted (snd mc) \<and>
         hash_already_present (snd mc1) = hash_already_present (snd mc) + 1)"
proof -
  have f1: "find_hash (fst mc1) h = Inr True"
    by (rule insert_hash_finds [OF assms(1)])
  have f2: "find_hash (fst mc2) h = Inr True"
    by (rule insert_hashes_keeps [OF assms(2) f1])
  from assms(1) have ne: "h \<noteq> []"
    by (auto simp: insert_hash_def Let_def split: if_splits)
  from insert_hash_counted [OF assms(1)] f1 f2 ne show ?thesis by blast
qed

text \<open>
  C1.  On a hash store made by the constructor, inserting non-empty hashes always
  returns; the insertion of a hash is counted as exactly one of \<open>hash_inserted\<close> and
  \<open>hash_already_present\<close>, and \<open>find\<close> of the hash is true then and after any further
  insertions.  The same holds from any state of the store in which the insertions
  return.  With a sector size other than zero the hash-data \<open>insert\<close> always returns, and
  when it stores an entry (its offset is aligned and its pair was not in the store), the
  bloom filter reports the entry's hash as possibly present when the call returns.
\<close>

theorem inserted_hash_is_found:
  "(new_hash_manager bits sb = Inr m \<and> [] \<notin> set hs1 \<and> h \<noteq> [] \<and> [] \<notin> set hs2 \<longrightarrow>
      (\<exists>s1 s2 s3. insert_hashes hs1 (m, c) = Inr s1 \<and> insert_hash h s1 = Inr s2 \<and>
         insert_hashes hs2 s2 = Inr s3 \<and>
         find_hash (fst s2) h = Inr True \<and> find_hash (fst s3) h = Inr True \<and>
         (hash_inserted (snd s2) = hash_inserted (snd s1) + 1 \<and>
            hash_already_present (snd s2) = hash_already_present (snd s1)
          \<or> hash_inserted (snd s2) = hash_inserted (snd s1) \<and>
            hash_already_present (snd s2) = hash_already_present (snd s1) + 1)))
   \<and> (insert_hash h mc = Inr mc1 \<and> insert_hashes hs mc1 = Inr mc2 \<longrightarrow>
      h \<noteq> [] \<and> find_hash (fst mc1) h = Inr True \<and> find_hash (fst mc2) h = Inr True \<and>
      (hash_inserted (snd mc1) = hash_inserted (snd mc) + 1 \<and>
         hash_already_present (snd mc1) = hash_already_present (snd mc)
       \<or> hash_inserted (snd mc1) = hash_inserted (snd mc) \<and>
         hash_already_present (snd mc1) = hash_already_present (snd mc) + 1))
   \<and> (sector_size (settings (fst dc)) \<noteq> 0 \<longrightarrow>
      (\<exists>dc'. insert_hash_data sid (e # es) dc = Inr dc' \<and>
         (\<not> misaligned (settings (fst dc)) e \<and>
          (entry_key (settings (fst dc)) e, entry_data (settings (fst dc)) sid e)
            \<notin> set (env (fst dc)) \<longrightarrow>
          probably_contains (bloom_filter_manager (fst dc')) (hd_binary_hash e))))"
proof (rule conjI; (rule conjI)?; rule impI)
  assume a: "new_hash_manager bits sb = Inr m \<and> [] \<notin> set hs1 \<and> h \<noteq> [] \<and> [] \<notin> set hs2"
  from a have "new_hash_manager bits sb = Inr m" by (rule conjunct1)
  then have "hash_env m = Map.empty" by (simp add: new_hash_manager_empty)
  then have wf: "well_formed (fst (m, c))" by (simp add: well_formed_empty)
  from a have n1: "[] \<notin> set hs1" and nh: "h \<noteq> []" and n2: "[] \<notin> set hs2" by simp_all
  from insert_hashes_returns [OF wf n1] obtain s1 where
    1: "insert_hashes hs1 (m, c) = Inr s1" and wf1: "well_formed (fst s1)"
    by (elim exE conjE)
  from insert_hash_returns [OF wf1 nh] obtain s2 where 2: "insert_hash h s1 = Inr s2"
    by (elim exE)
  have wf2: "well_formed (fst s2)" by (rule insert_hash_well_formed [OF 2 wf1])
  from insert_hashes_returns [OF wf2 n2] obtain s3 where 3: "insert_hashes hs2 s2 = Inr s3"
    by (elim exE conjE)
  from inserted_hash_found_from [OF 2 3] 1 2 3
  show "\<exists>s1 s2 s3. insert_hashes hs1 (m, c) = Inr s1 \<and> insert_hash h s1 = Inr s2 \<and>
         insert_hashes hs2 s2 = Inr s3 \<and>
         find_hash (fst s2) h = Inr True \<and> find_hash (fst s3) h = Inr True \<and>
         (hash_inserted (snd s2) = hash_inserted (snd s1) + 1 \<and>
            hash_already_present (snd s2) = hash_already_present (snd s1)
          \<or> hash_inserted (snd s2) = hash_inserted (snd s1) \<and>
            hash_already_present (snd s2) = hash_already_present (snd s1) + 1)"
    by (intro exI [of _ s1] exI [of _ s2] exI [of _ s3]) simp
next
  assume "insert_hash h mc = Inr mc1 \<and> insert_hashes hs mc1 = Inr mc2"
  then have i1: "insert_hash h mc = Inr mc1" and i2: "insert_hashes hs mc1 = Inr mc2"
    by simp_all
  show "h \<noteq> [] \<and> find_hash (fst mc1) h = Inr True \<and> find_hash (fst mc2) h = Inr True \<and>
      (hash_inserted (snd mc1) = hash_inserted (snd mc) + 1 \<and>
         hash_already_present (snd mc1) = hash_already_present (snd mc)
       \<or> hash_inserted (snd mc1) = hash_inserted (snd mc) \<and>
         hash_already_present (snd mc1) = hash_already_present (snd mc) + 1)"
    by (rule inserted_hash_found_from [OF i1 i2])
next
  assume z: "sector_size (settings (fst dc)) \<noteq> 0"
  from insert_hash_data_returns [OF z, of sid "e # es"] obtain dc' where
    r: "insert_hash_data sid (e # es) dc = Inr dc'" by (elim exE)
  then obtain dc1 where 1: "insert_entry sid e dc = Inr dc1"
    and 2: "insert_hash_data sid es dc1 = Inr dc'"
    by (auto split: sum.splits)
  have "probably_contains (bloom_filter_manager (fst dc')) (hd_binary_hash e)"
    if "\<not> misaligned (settings (fst dc)) e \<and>
        (entry_key (settings (fst dc)) e, entry_data (settings (fst dc)) sid e)
          \<notin> set (env (fst dc))"
  proof -
    from insert_entry_bloom_added [OF 1] that
    have "probably_contains (bloom_filter_manager (fst dc1)) (hd_binary_hash e)" by simp
    with 2 show ?thesis by (rule insert_hash_data_bloom_mono)
  qed
  with r show "\<exists>dc'. insert_hash_data sid (e # es) dc = Inr dc' \<and>
         (\<not> misaligned (settings (fst dc)) e \<and>
          (entry_key (settings (fst dc)) e, entry_data (settings (fst dc)) sid e)
            \<notin> set (env (fst dc)) \<longrightarrow>
          probably_contains (bloom_filter_manager (fst dc')) (hd_binary_hash e))"
    by (intro exI [of _ dc']) simp
qed

theorem inserted_hash_is_found_witness:
  "(\<exists>s2 s3. insert_hash [1] (example_hash_manager, example_changes) = Inr s2 \<and>
      insert_hashes [[3]] s2 = Inr s3 \<and> find_hash (fst s3) [1] = Inr True)
   \<and> (\<exists>dc'. insert_hash_data 1 [e0] (example_manager, new_changes) = Inr dc' \<and>
         probably_contains (bloom_filter_manager (fst dc')) [1, 2, 3])"
proof -
  note t = inserted_hash_is_found
    [of 4 1 example_hash_manager "[]" "[1]" "[[3]]" example_changes _ _ _ _
      "(example_manager, new_changes)" 1 e0 "[]"]
  have h1: "new_hash_manager 4 1 = Inr example_hash_manager \<and> [] \<notin> set ([] :: bytes list) \<and>
      [1 :: byte] \<noteq> [] \<and> [] \<notin> set [[3 :: byte]]"
    by (simp add: example_hash_manager_new)
  from t [THEN conjunct1, rule_format, OF h1] obtain s1 s2 s3 where
    a: "insert_hashes [] (example_hash_manager, example_changes) = Inr s1"
    "insert_hash [1] s1 = Inr s2" "insert_hashes [[3]] s2 = Inr s3"
    "find_hash (fst s3) [1] = Inr True"
    by (elim exE conjE)
  from a(1) have "s1 = (example_hash_manager, example_changes)" by simp
  with a have A: "\<exists>s2 s3. insert_hash [1] (example_hash_manager, example_changes) = Inr s2 \<and>
      insert_hashes [[3]] s2 = Inr s3 \<and> find_hash (fst s3) [1] = Inr True"
    by (intro exI [of _ s2] exI [of _ s3]) simp
  have h3: "sector_size (settings (fst (example_manager, new_changes))) \<noteq> 0"
    by (simp add: example_manager_def)
  have h4: "\<not> misaligned (settings (fst (example_manager, new_changes))) e0 \<and>
      (entry_key (settings (fst (example_manager, new_changes))) e0,
       entry_data (settings (fst (example_manager, new_changes))) 1 e0)
        \<notin> set (env (fst (example_manager, new_changes)))"
    by (simp add: example_manager_def misaligned_def e0_def)
  from t [THEN conjunct2, THEN conjunct2, rule_format, OF h3] obtain dc' where
    b: "insert_hash_data 1 [e0] (example_manager, new_changes) = Inr dc'"
    "\<not> misaligned (settings (fst (example_manager, new_changes))) e0 \<and>
      (entry_key (settings (fst (example_manager, new_changes))) e0,
       entry_data (settings (fst (example_manager, new_changes))) 1 e0)
        \<notin> set (env (fst (example_manager, new_changes))) \<longrightarrow>
      probably_contains (bloom_filter_manager (fst dc')) (hd_binary_hash e0)"
    by (elim exE conjE)
  from b(2) h4 have "probably_contains (bloom_filter_manager (fst dc')) (hd_binary_hash e0)"
    by (rule mp)
  then have "probably_contains (bloom_filter_manager (fst dc')) [1, 2, 3]"
    by (simp add: e0_def)
  with b(1) have B: "\<exists>dc'. insert_hash_data 1 [e0] (example_manager, new_changes) = Inr dc' \<and>
         probably_contains (bloom_filter_manager (fst dc')) [1, 2, 3]"
    by (intro exI [of _ dc']) simp
  from A B show ?thesis by (rule conjI)
qed

text \<open>
  C5 (amended).  An entry whose offset is not a multiple of the sector size adds one to
  \<open>hashes_not_inserted_invalid_sector_size\<close>, leaves the manager (store and bloom filter)
  as it was, and the loop goes on with the entries after it; over a whole list the
  counter grows by the number of such entries.
\<close>

theorem insert_hash_data_misaligned:
  assumes "sector_size (settings (fst mc)) \<noteq> 0"
    and "misaligned (settings (fst mc)) e"
  shows "insert_hash_data sid (es1 @ e # es2) mc =
     (case insert_hash_data sid es1 mc of
        Inl err \<Rightarrow> Inl err
      | Inr mc1 \<Rightarrow>
          insert_hash_data sid es2
            (fst mc1, (snd mc1)\<lparr>hashes_not_inserted_invalid_sector_size :=
                                  hashes_not_inserted_invalid_sector_size (snd mc1) + 1\<rparr>))
   \<and> (\<forall>mc'. insert_hash_data sid (es1 @ e # es2) mc = Inr mc' \<longrightarrow>
         hashes_not_inserted_invalid_sector_size (snd mc') =
           hashes_not_inserted_invalid_sector_size (snd mc) +
             of_nat (length (filter (misaligned (settings (fst mc))) (es1 @ e # es2))))"
proof (rule conjI)
  show "insert_hash_data sid (es1 @ e # es2) mc =
     (case insert_hash_data sid es1 mc of
        Inl err \<Rightarrow> Inl err
      | Inr mc1 \<Rightarrow>
          insert_hash_data sid es2
            (fst mc1, (snd mc1)\<lparr>hashes_not_inserted_invalid_sector_size :=
                                  hashes_not_inserted_invalid_sector_size (snd mc1) + 1\<rparr>))"
  proof (cases "insert_hash_data sid es1 mc")
    case (Inl err)
    then show ?thesis by (simp add: insert_hash_data_append)
  next
    case (Inr mc1)
    then have s: "settings (fst mc1) = settings (fst mc)"
      by (rule insert_hash_data_settings)
    with assms have "insert_entry sid e mc1 =
        Inr (fst mc1, (snd mc1)\<lparr>hashes_not_inserted_invalid_sector_size :=
                                    hashes_not_inserted_invalid_sector_size (snd mc1) + 1\<rparr>)"
      by (simp add: insert_entry_def Let_def)
    with Inr show ?thesis by (simp add: insert_hash_data_append)
  qed
next
  show "\<forall>mc'. insert_hash_data sid (es1 @ e # es2) mc = Inr mc' \<longrightarrow>
         hashes_not_inserted_invalid_sector_size (snd mc') =
           hashes_not_inserted_invalid_sector_size (snd mc) +
             of_nat (length (filter (misaligned (settings (fst mc))) (es1 @ e # es2)))"
    by (intro allI impI) (rule insert_hash_data_invalid_count)
qed

theorem insert_hash_data_misaligned_witness:
  "insert_hash_data 1 [e513] (example_manager, new_changes) =
     Inr (example_manager, new_changes\<lparr>hashes_not_inserted_invalid_sector_size := 1\<rparr>)"
  using insert_hash_data_misaligned [of "(example_manager, new_changes)" e513 1 "[]" "[]"]
    e513_misaligned
  by (simp add: example_manager_def new_changes_def)

text \<open>
  The counter \<open>hashes_not_inserted_invalid_byte_alignment\<close> is not the one that grows:
  after an entry at offset 513 with 512-byte sectors it is still zero.
\<close>

theorem byte_alignment_counter_counterexample:
  "insert_hash_data 1 [e513] (example_manager, new_changes) =
     Inr (example_manager, new_changes\<lparr>hashes_not_inserted_invalid_sector_size := 1\<rparr>)
   \<and> hashes_not_inserted_invalid_byte_alignment
       (new_changes\<lparr>hashes_not_inserted_invalid_sector_size := 1\<rparr>)
     \<noteq> hashes_not_inserted_invalid_byte_alignment new_changes + 1"
  using e513_misaligned
  by (simp add: insert_entry_def example_manager_def new_changes_def)

text \<open>
  C6.  A store without repeated (key, data) pairs has none after any \<open>insert\<close>.  Inserting
  an aligned observation that is not yet stored twice, with fresh counters, gives
  \<open>hashes_inserted = 1\<close> and \<open>hashes_not_inserted_duplicate_element = 1\<close>, and the second
  insertion leaves the manager as the first one left it.
\<close>

theorem insert_hash_data_twice:
  assumes "distinct (env m)"
    and "sector_size (settings m) \<noteq> 0"
    and "\<not> misaligned (settings m) e"
    and "(entry_key (settings m) e, entry_data (settings m) sid e) \<notin> set (env m)"
  shows "(\<forall>sid' es c mc'. insert_hash_data sid' es (m, c) = Inr mc' \<longrightarrow> distinct (env (fst mc')))
   \<and> (\<exists>m1. insert_hash_data sid [e] (m, new_changes) =
               Inr (m1, new_changes\<lparr>hashes_inserted := 1\<rparr>)
          \<and> insert_hash_data sid [e] (m1, new_changes\<lparr>hashes_inserted := 1\<rparr>) =
               Inr (m1, new_changes\<lparr>hashes_inserted := 1,
                                     hashes_not_inserted_duplicate_element := 1\<rparr>)
          \<and> insert_hash_data sid [e, e] (m, new_changes) =
               Inr (m1, new_changes\<lparr>hashes_inserted := 1,
                                     hashes_not_inserted_duplicate_element := 1\<rparr>)
          \<and> distinct (env m1)
          \<and> (entry_key (settings m) e, entry_data (settings m) sid e) \<in> set (env m1))"
proof (rule conjI)
  show "\<forall>sid' es c mc'. insert_hash_data sid' es (m, c) = Inr mc' \<longrightarrow> distinct (env (fst mc'))"
    using assms(1) by (auto dest: insert_hash_data_distinct)
next
  let ?k = "(entry_key (settings m) e, entry_data (settings m) sid e)"
  let ?m1 = "m\<lparr>env := insort ?k (env m),
               bloom_filter_manager := add_hash_value (bloom_filter_manager m) (hd_binary_hash e)\<rparr>"
  have 1: "insert_hash_data sid [e] (m, new_changes) =
      Inr (?m1, new_changes\<lparr>hashes_inserted := 1\<rparr>)"
    using assms(2-4) by (simp add: insert_entry_def Let_def new_changes_def)
  have 2: "insert_hash_data sid [e] (?m1, new_changes\<lparr>hashes_inserted := 1\<rparr>) =
      Inr (?m1, new_changes\<lparr>hashes_inserted := 1, hashes_not_inserted_duplicate_element := 1\<rparr>)"
    using assms(2-4) by (simp add: insert_entry_def Let_def new_changes_def set_insort_key)
  have 3: "insert_hash_data sid [e, e] (m, new_changes) =
      Inr (?m1, new_changes\<lparr>hashes_inserted := 1, hashes_not_inserted_duplicate_element := 1\<rparr>)"
    using assms(2-4) by (simp add: insert_entry_def Let_def new_changes_def set_insort_key)
  have 4: "distinct (env ?m1)" using assms(1,4) by (simp add: distinct_insort)
  have 5: "?k \<in> set (env ?m1)" by (simp add: set_insort_key)
  from 1 2 3 4 5 show "\<exists>m1. insert_hash_data sid [e] (m, new_changes) =
               Inr (m1, new_changes\<lparr>hashes_inserted := 1\<rparr>)
          \<and> insert_hash_data sid [e] (m1, new_changes\<lparr>hashes_inserted := 1\<rparr>) =
               Inr (m1, new_changes\<lparr>hashes_inserted := 1,
                                     hashes_not_inserted_duplicate_element := 1\<rparr>)
          \<and> insert_hash_data sid [e, e] (m, new_changes) =
               Inr (m1, new_changes\<lparr>hashes_inserted := 1,
                                     hashes_not_inserted_duplicate_element := 1\<rparr>)
          \<and> distinct (env m1)
          \<and> (entry_key (settings m) e, entry_data (settings m) sid e) \<in> set (env m1)"
    by blast
qed

theorem insert_hash_data_twice_witness:
  "insert_hash_data 1 [e0, e0] (example_manager, new_changes) =
     Inr (example_manager_after,
          new_changes\<lparr>hashes_inserted := 1, hashes_not_inserted_duplicate_element := 1\<rparr>)"
proof -
  have 1: "distinct (env example_manager)"
    and 2: "sector_size (settings example_manager) \<noteq> 0"
    and 3: "\<not> misaligned (settings example_manager) e0"
    and 4: "(entry_key (settings example_manager) e0, entry_data (settings example_manager) 1 e0)
              \<notin> set (env example_manager)"
    by (simp_all add: example_manager_def misaligned_def e0_def)
  from insert_hash_data_twice [OF 1 2 3 4] obtain m1 where
    a: "insert_hash_data 1 [e0] (example_manager, new_changes) =
          Inr (m1, new_changes\<lparr>hashes_inserted := 1\<rparr>)"
    and b: "insert_hash_data 1 [e0, e0] (example_manager, new_changes) =
          Inr (m1, new_changes\<lparr>hashes_inserted := 1, hashes_not_inserted_duplicate_element := 1\<rparr>)"
    by blast
  from a example_insert_data have "m1 = example_manager_after" by simp
  with b show ?thesis by simp
qed

section \<open>Properties of the JSON import\<close>

lemma read_pairs_snoc:
  "even (length xs) \<Longrightarrow> even i \<Longrightarrow>
   read_pairs h b e l ln (xs @ [x]) i = read_pairs h b e l ln xs i"
proof (induction "length xs - i" arbitrary: i rule: less_induct)
  case less
  show ?case
  proof (cases "i + 1 < length xs")
    case True
    then have step: "read_pairs h b e l ln (xs @ [x]) (i + 2) = read_pairs h b e l ln xs (i + 2)"
      using less.prems by (intro less.hyps) auto
    from True have nth: "(xs @ [x]) ! i = xs ! i" "(xs @ [x]) ! (i + 1) = xs ! (i + 1)"
      by (simp_all add: nth_append)
    from True have c: "i + 1 < length (xs @ [x])" by simp
    show ?thesis
      by (subst read_pairs.simps, subst (2) read_pairs.simps)
        (simp only: c True nth step if_True)
  next
    case False
    with less.prems have "\<not> i + 1 < length (xs @ [x])"
      by (auto elim!: evenE)
    with False show ?thesis
      by (subst read_pairs.simps, subst (2) read_pairs.simps) simp
  qed
qed

lemma read_pairs_well_typed:
  "well_typed_pairs ps \<Longrightarrow> even i \<Longrightarrow>
   read_pairs h b e l ln ps i =
     (map (pair_event h b e l ps) [i div 2 ..< length ps div 2], Returned)"
proof (induction "length ps - i" arbitrary: i rule: less_induct)
  case less
  show ?case
  proof (cases "i + 1 < length ps")
    case True
    from less.prems(2) obtain j where j: "i = 2 * j" by (auto elim: evenE)
    from True j have jlt: "j < length ps div 2" by auto
    with less.prems(1) have ty: "IsString (ps ! i)" "IsUint64 (ps ! (i + 1))"
      by (simp_all add: well_typed_pairs_def list_all_iff j)
    have step: "read_pairs h b e l ln ps (i + 2) =
        (map (pair_event h b e l ps) [(i + 2) div 2 ..< length ps div 2], Returned)"
      using less.prems True by (intro less.hyps) auto
    have up: "[i div 2 ..< length ps div 2] = j # [(i + 2) div 2 ..< length ps div 2]"
      using jlt by (simp add: j upt_conv_Cons)
    have ev: "pair_event h b e l ps j =
        Insert_hash b (h (GetString (ps ! i))) (GetUint64 (ps ! (i + 1))) e l"
      by (simp add: pair_event_def j)
    show ?thesis
      by (subst read_pairs.simps)
        (simp only: True ty step up ev if_True not_True_eq_False if_False Let_def
           fst_conv snd_conv list.map)
  next
    case False
    with less.prems(2) have "length ps div 2 \<le> i div 2"
      by (auto elim!: evenE)
    with False show ?thesis
      by (subst read_pairs.simps) simp
  qed
qed

lemma read_names_stops:
  assumes "j < length ns" "is_object (ns ! j)" "\<not> valid_name (ns ! j)"
    and "\<forall>k<j. valid_name (ns ! k)" and "i \<le> j"
  shows "\<exists>r. is_report r \<and>
           read_names fh line ns i = (map (name_event fh) (drop i (take j ns)) @ [r], Returned)"
  using assms(5)
proof (induction "j - i" arbitrary: i)
  case 0
  then have ij: "i = j" by simp
  from assms(2) obtain ms where ms: "ns ! j = JObject ms" by (cases "ns ! j") auto
  from assms(1) have d: "drop j (take j ns) = []" by simp
  show ?case
    unfolding ij using assms(3)
    by (subst read_names.simps) (auto simp: assms(1) ms d)
next
  case (Suc n)
  then have lt: "i < j" by simp
  with assms(4) have v: "valid_name (ns ! i)" by simp
  then obtain ms where ms: "ns ! i = JObject ms" by (cases "ns ! i") auto
  from Suc(2) have n: "n = j - Suc i" by simp
  from lt have le: "Suc i \<le> j" by simp
  from Suc(1) [OF n le] obtain r where r: "is_report r"
    "read_names fh line ns (Suc i) = (map (name_event fh) (drop (Suc i) (take j ns)) @ [r], Returned)"
    by blast
  from lt assms(1) have "i < length (take j ns)" by simp
  then have "drop i (take j ns) = take j ns ! i # drop (Suc i) (take j ns)"
    by (rule Cons_nth_drop_Suc [symmetric])
  with lt have dr: "drop i (take j ns) = ns ! i # drop (i + 1) (take j ns)"
    by simp
  from lt assms(1) have il: "i < length ns" by simp
  have "read_names fh line ns i = (map (name_event fh) (drop i (take j ns)) @ [r], Returned)"
    using v by (subst read_names.simps) (simp add: il ms r(2) dr)
  with r(1) show ?case by blast
qed

text \<open>
  C9.  When the \<open>source_offset_pairs\<close> array of a block-hash record has odd length, its last
  element is never looked at: the record is processed exactly as if that element were
  not there, and when every complete pair has the right types the reader performs the
  \<open>length div 2\<close> insertions of the complete pairs, reports nothing and returns.
\<close>

theorem read_block_hash_data_odd_length:
  assumes "HasMember d ''block_hash''" and "IsString (member d ''block_hash'')"
    and "HasMember d ''source_offset_pairs''"
    and "member d ''source_offset_pairs'' = JArray ps"
    and "odd (length ps)"
  shows "read_block_hash_data h d line =
           read_pairs h (h (GetString (member d ''block_hash''))) (entropy_of d)
             (block_label_of d) line (butlast ps) 0
         \<and> (well_typed_pairs ps \<longrightarrow>
              read_block_hash_data h d line =
                (map (pair_event h (h (GetString (member d ''block_hash''))) (entropy_of d)
                        (block_label_of d) ps) [0 ..< length ps div 2], Returned)
              \<and> \<not> list_ex is_report (fst (read_block_hash_data h d line)))"
proof -
  let ?b = "h (GetString (member d ''block_hash''))"
  have eq: "read_block_hash_data h d line =
      read_pairs h ?b (entropy_of d) (block_label_of d) line ps 0"
    using assms(1-4)
    by (simp add: read_block_hash_data_def entropy_of_def block_label_of_def Let_def)
  from assms(5) have ne: "ps \<noteq> []" by auto
  then have ps: "ps = butlast ps @ [last ps]" by simp
  from assms(5) ne have ev: "even (length (butlast ps))" by simp
  have drop_last: "read_pairs h ?b (entropy_of d) (block_label_of d) line ps 0 =
      read_pairs h ?b (entropy_of d) (block_label_of d) line (butlast ps) 0"
    by (subst ps) (rule read_pairs_snoc [OF ev], simp)
  have typed: "read_pairs h ?b (entropy_of d) (block_label_of d) line ps 0 =
      (map (pair_event h ?b (entropy_of d) (block_label_of d) ps) [0 ..< length ps div 2],
       Returned)" if "well_typed_pairs ps"
    using read_pairs_well_typed [OF that, of 0] by simp
  have no_report: "\<not> list_ex is_report (map (pair_event h ?b (entropy_of d) (block_label_of d) ps) js)"
    for js by (induction js) (simp_all add: pair_event_def)
  show ?thesis
    using drop_last typed no_report by (simp add: eq)
qed

theorem read_block_hash_data_odd_length_witness:
  "read_block_hash_data char_codes
     [(''block_hash'', JString ''a7''),
      (''source_offset_pairs'', JArray [JString ''b9'', JNumber 4096, JString ''c3''])] ''l''
   = ([Insert_hash (char_codes ''a7'') (char_codes ''b9'') 4096 0 []], Returned)"
proof -
  let ?ps = "[JString ''b9'', JNumber 4096, JString ''c3'']"
  let ?d = "[(''block_hash'', JString ''a7''), (''source_offset_pairs'', JArray ?ps)]"
  have up: "[0 ..< length ?ps div 2] = [0]" by simp
  have wt: "well_typed_pairs ?ps"
    unfolding well_typed_pairs_def up by simp
  have h1: "HasMember ?d ''block_hash''" and h2: "IsString (member ?d ''block_hash'')"
    and h3: "HasMember ?d ''source_offset_pairs''"
    and h4: "member ?d ''source_offset_pairs'' = JArray ?ps" and h5: "odd (length ?ps)"
    by (simp_all add: HasMember_def member_def)
  have ex: "read_block_hash_data char_codes ?d ''l'' =
      (map (pair_event char_codes (char_codes (GetString (member ?d ''block_hash'')))
             (entropy_of ?d) (block_label_of ?d) ?ps) [0 ..< length ?ps div 2], Returned)"
    using read_block_hash_data_odd_length [OF h1 h2 h3 h4 h5, of char_codes "''l''"] wt
    by blast
  show ?thesis
    unfolding ex up
    by (simp add: pair_event_def HasMember_def member_def entropy_of_def block_label_of_def)
qed

text \<open>
  C10.  A source record whose \<open>file_hash\<close> and \<open>filesize\<close> are valid has its source data
  inserted first, whatever \<open>names\<close> is.  When \<open>names\<close> is missing or is not an array, the
  reader inserts the source data and then reports the line as invalid.  When \<open>names\<close> is
  an array whose element \<open>j\<close> is an object failing a check while the elements before it
  pass, the reader inserts the source data and the \<open>j\<close> name pairs before it, and then
  reports the line as invalid.
\<close>

theorem read_source_data_inserts_before_names:
  assumes "HasMember d ''file_hash''" and "IsString (member d ''file_hash'')"
    and "HasMember d ''filesize''" and "IsUint64 (member d ''filesize'')"
  shows "(\<exists>evs. fst (read_source_data h d line) = source_data_event h d # evs)
       \<and> (\<not> HasMember d ''names'' \<or> \<not> IsArray (member d ''names'') \<longrightarrow>
            read_source_data h d line =
              ([source_data_event h d, Report_invalid_line ''source data names'' line], Returned))
       \<and> (\<forall>ns j. HasMember d ''names'' \<and> member d ''names'' = JArray ns \<and> j < length ns \<and>
                  is_object (ns ! j) \<and> \<not> valid_name (ns ! j) \<and> (\<forall>k<j. valid_name (ns ! k)) \<longrightarrow>
            (\<exists>r. is_report r \<and>
               read_source_data h d line =
                 (source_data_event h d #
                    map (name_event (h (GetString (member d ''file_hash'')))) (take j ns) @ [r],
                  Returned)))"
proof (intro conjI allI impI)
  show "\<exists>evs. fst (read_source_data h d line) = source_data_event h d # evs"
    using assms by (simp add: read_source_data_def source_data_event_def Let_def)
next
  assume "\<not> HasMember d ''names'' \<or> \<not> IsArray (member d ''names'')"
  then show "read_source_data h d line =
      ([source_data_event h d, Report_invalid_line ''source data names'' line], Returned)"
    using assms by (auto simp: read_source_data_def source_data_event_def Let_def)
next
  fix ns j
  assume a: "HasMember d ''names'' \<and> member d ''names'' = JArray ns \<and> j < length ns \<and>
    is_object (ns ! j) \<and> \<not> valid_name (ns ! j) \<and> (\<forall>k<j. valid_name (ns ! k))"
  let ?fh = "h (GetString (member d ''file_hash''))"
  from a obtain r where r: "is_report r"
    "read_names ?fh line ns 0 = (map (name_event ?fh) (drop 0 (take j ns)) @ [r], Returned)"
    using read_names_stops [of j ns 0 ?fh line] by auto
  have "read_source_data h d line =
      (source_data_event h d # map (name_event ?fh) (take j ns) @ [r], Returned)"
    using assms a r(2) by (simp add: read_source_data_def source_data_event_def Let_def)
  with r(1) show "\<exists>r. is_report r \<and> read_source_data h d line =
      (source_data_event h d # map (name_event ?fh) (take j ns) @ [r], Returned)"
    by blast
qed

theorem read_source_data_inserts_before_names_witness:
  "read_source_data char_codes
     [(''file_hash'', JString ''b9''), (''filesize'', JNumber 8000)] ''l''
   = ([Insert_source_data (char_codes ''b9'') 8000 [] 0,
       Report_invalid_line ''source data names'' ''l''], Returned)"
  using read_source_data_inserts_before_names
    [of "[(''file_hash'', JString ''b9''), (''filesize'', JNumber 8000)]" char_codes "''l''"]
  by (simp add: HasMember_def member_def source_data_event_def)


section \<open>Properties of the set-algebra commands\<close>

lemma find_count_pos: "(0 < find_count db k) = (k \<in> key ` set db)"
proof -
  have "(filter (\<lambda>e. key e = k) db \<noteq> []) = (k \<in> key ` set db)"
    by (auto simp: filter_empty_conv)
  then show ?thesis by (simp add: find_count_def)
qed

lemma sorted_key_block:
  "sorted (map key ys) \<Longrightarrow> \<forall>e\<in>set ys. k \<le> key e \<Longrightarrow>
   take (length (filter (\<lambda>e. key e = k) ys)) ys = filter (\<lambda>e. key e = k) ys \<and>
   drop (length (filter (\<lambda>e. key e = k) ys)) ys = filter (\<lambda>e. key e \<noteq> k) ys"
proof (induction ys)
  case Nil
  then show ?case by simp
next
  case (Cons y ys)
  show ?case
  proof (cases "key y = k")
    case True
    with Cons show ?thesis by simp
  next
    case False
    with Cons.prems have "k < key y" by auto
    with Cons.prems have "\<forall>e\<in>set ys. key e \<noteq> k" by fastforce
    then have "filter (\<lambda>e. key e = k) ys = []" "filter (\<lambda>e. key e \<noteq> k) ys = ys"
      by (simp_all add: filter_empty_conv filter_id_conv)
    with False show ?thesis by simp
  qed
qed

lemma intersect_loop_mset:
  assumes "sorted (map key smaller)"
  shows "\<forall>k \<in> key ` set (drop it smaller). k \<in> key ` set larger \<longrightarrow> k \<notin> key ` set (take it smaller) \<Longrightarrow>
     \<exists>tr. intersect_loop ins smaller larger it s = Some (fold ins tr s) \<and>
       mset tr = filter_mset (\<lambda>e. key e \<in> key ` set larger) (mset (drop it smaller)) +
                 filter_mset (\<lambda>e. key e \<in> key ` set (drop it smaller)) (mset larger)"
proof (induction "length smaller - it" arbitrary: it s rule: less_induct)
  case less
  let ?rest = "drop it smaller"
  show ?case
  proof (cases "it < length smaller")
    case False
    then have "intersect_loop ins smaller larger it s = Some (fold ins [] s)"
      by (subst intersect_loop.simps) simp
    moreover from False have "drop it smaller = []" by simp
    ultimately show ?thesis by (intro exI [of _ "[]"]) simp
  next
    case True
    let ?e = "smaller ! it"
    let ?k = "key ?e"
    from True have rest: "?rest = ?e # drop (Suc it) smaller"
      by (simp add: Cons_nth_drop_Suc)
    show ?thesis
    proof (cases "0 < find_count larger ?k")
      case False
      then have nk: "?k \<notin> key ` set larger" by (simp add: find_count_pos)
      have step: "intersect_loop ins smaller larger it s =
          intersect_loop ins smaller larger (Suc it) s"
        using True False by (subst intersect_loop.simps) simp
      have tk: "take (Suc it) smaller = take it smaller @ [?e]"
        using True by (simp add: take_Suc_conv_app_nth)
      have inv: "\<forall>k \<in> key ` set (drop (Suc it) smaller).
          k \<in> key ` set larger \<longrightarrow> k \<notin> key ` set (take (Suc it) smaller)"
      proof (intro ballI impI)
        fix k assume k: "k \<in> key ` set (drop (Suc it) smaller)" "k \<in> key ` set larger"
        then have "k \<in> key ` set ?rest" by (simp add: rest)
        with less.prems k(2) have "k \<notin> key ` set (take it smaller)" by blast
        moreover from k(2) nk have "k \<noteq> ?k" by blast
        ultimately show "k \<notin> key ` set (take (Suc it) smaller)"
          by (auto simp: tk)
      qed
      from True have "length smaller - Suc it < length smaller - it" by simp
      from less.hyps [OF this inv, of s] obtain tr where
        tr: "intersect_loop ins smaller larger (Suc it) s = Some (fold ins tr s)"
        "mset tr = filter_mset (\<lambda>e. key e \<in> key ` set larger) (mset (drop (Suc it) smaller)) +
                 filter_mset (\<lambda>e. key e \<in> key ` set (drop (Suc it) smaller)) (mset larger)"
        by blast
      have m1: "filter_mset (\<lambda>e. key e \<in> key ` set larger) (mset ?rest) =
          filter_mset (\<lambda>e. key e \<in> key ` set larger) (mset (drop (Suc it) smaller))"
        using nk by (simp add: rest)
      have m2: "filter_mset (\<lambda>e. key e \<in> key ` set ?rest) (mset larger) =
          filter_mset (\<lambda>e. key e \<in> key ` set (drop (Suc it) smaller)) (mset larger)"
      proof -
        from nk have "\<forall>x\<in>set larger. key x \<noteq> ?k" by (metis imageI)
        then show ?thesis
          by (intro filter_mset_cong refl) (auto simp: rest)
      qed
      from tr step m1 m2 show ?thesis by auto
    next
      case matched: True
      then have mk: "?k \<in> key ` set larger" by (simp add: find_count_pos)
      let ?n = "find_count smaller ?k"
      have "?k \<in> key ` set ?rest" by (simp add: rest)
      with less.prems mk have "?k \<notin> key ` set (take it smaller)" by blast
      then have "filter (\<lambda>e. key e = ?k) (take it smaller) = []"
        unfolding filter_empty_conv by (metis imageI)
      moreover have "filter (\<lambda>e. key e = ?k) smaller =
          filter (\<lambda>e. key e = ?k) (take it smaller) @ filter (\<lambda>e. key e = ?k) ?rest"
        by (metis append_take_drop_id filter_append)
      ultimately have n: "?n = length (filter (\<lambda>e. key e = ?k) ?rest)"
        by (simp add: find_count_def)
      from assms have "sorted (drop it (map key smaller))" by (rule sorted_wrt_drop)
      then have srest: "sorted (map key ?rest)" by (simp add: drop_map)
      then have ge: "\<forall>e\<in>set ?rest. ?k \<le> key e" by (auto simp: rest)
      from sorted_key_block [OF srest ge]
      have blk: "take ?n ?rest = filter (\<lambda>e. key e = ?k) ?rest"
        "drop ?n ?rest = filter (\<lambda>e. key e \<noteq> ?k) ?rest"
        by (simp_all add: n)
      have "?e \<in> set (filter (\<lambda>e. key e = ?k) ?rest)" by (simp add: rest)
      then have npos: "0 < ?n" unfolding n by (metis length_pos_if_in_set)
      have "?n \<le> length ?rest" unfolding n by (rule length_filter_le)
      then have bound: "\<not> length smaller < it + ?n" using True by simp
      have dr: "drop (it + ?n) smaller = filter (\<lambda>e. key e \<noteq> ?k) ?rest"
        using blk(2) by (simp add: add.commute)
      have tk: "take (it + ?n) smaller = take it smaller @ filter (\<lambda>e. key e = ?k) ?rest"
        using blk(1) by (simp add: take_add)
      have inv: "\<forall>k \<in> key ` set (drop (it + ?n) smaller).
          k \<in> key ` set larger \<longrightarrow> k \<notin> key ` set (take (it + ?n) smaller)"
      proof (intro ballI impI)
        fix k assume k: "k \<in> key ` set (drop (it + ?n) smaller)" "k \<in> key ` set larger"
        then have "k \<in> key ` set ?rest" "k \<noteq> ?k" by (auto simp: dr)
        moreover with less.prems k(2) have "k \<notin> key ` set (take it smaller)" by blast
        ultimately show "k \<notin> key ` set (take (it + ?n) smaller)"
          by (auto simp: tk)
      qed
      let ?s2 = "fold ins (find_range larger ?k)
                   (fold ins (take ?n ?rest) s)"
      from True npos have "length smaller - (it + ?n) < length smaller - it" by simp
      from less.hyps [OF this inv, of ?s2] obtain tr where
        tr: "intersect_loop ins smaller larger (it + ?n) ?s2 = Some (fold ins tr ?s2)"
        "mset tr = filter_mset (\<lambda>e. key e \<in> key ` set larger) (mset (drop (it + ?n) smaller)) +
                 filter_mset (\<lambda>e. key e \<in> key ` set (drop (it + ?n) smaller)) (mset larger)"
        by blast
      have step: "intersect_loop ins smaller larger it s =
          intersect_loop ins smaller larger (it + ?n) ?s2"
        using True matched bound by (subst intersect_loop.simps) (simp add: Let_def)
      let ?tr = "take ?n ?rest @ find_range larger ?k @ tr"
      have res: "intersect_loop ins smaller larger it s = Some (fold ins ?tr s)"
        by (simp add: step tr(1))
      have m1: "filter_mset (\<lambda>e. key e \<in> key ` set larger) (mset ?rest) =
          mset (filter (\<lambda>e. key e = ?k) ?rest) +
          filter_mset (\<lambda>e. key e \<in> key ` set larger) (mset (filter (\<lambda>e. key e \<noteq> ?k) ?rest))"
        using mk by (auto simp: multiset_eq_iff)
      have m2: "filter_mset (\<lambda>e. key e \<in> key ` set ?rest) (mset larger) =
          mset (filter (\<lambda>e. key e = ?k) larger) +
          filter_mset (\<lambda>e. key e \<in> key ` set (filter (\<lambda>e. key e \<noteq> ?k) ?rest)) (mset larger)"
        using \<open>?k \<in> key ` set ?rest\<close> by (auto simp: multiset_eq_iff)
      have "mset ?tr = filter_mset (\<lambda>e. key e \<in> key ` set larger) (mset ?rest) +
                 filter_mset (\<lambda>e. key e \<in> key ` set ?rest) (mset larger)"
        unfolding m1 m2 by (simp add: blk(1) find_range_def tr(2) dr)
      with res show ?thesis by blast
    qed
  qed
qed

lemma hashdb_insert_set: "set (fst (hashdb_insert e dc)) = insert e (set (fst dc))"
  by (auto simp: hashdb_insert_def set_insort_key)

lemma hashdb_insert_sorted:
  "sorted (map key (fst dc)) \<Longrightarrow> sorted (map key (fst (hashdb_insert e dc)))"
  by (simp add: hashdb_insert_def sorted_insort_key)

lemma fold_hashdb_insert_set:
  "set (fst (fold hashdb_insert tr dc)) = set (fst dc) \<union> set tr"
  by (induction tr arbitrary: dc) (auto simp: hashdb_insert_set)

lemma fold_hashdb_insert_sorted:
  "sorted (map key (fst dc)) \<Longrightarrow> sorted (map key (fst (fold hashdb_insert tr dc)))"
  by (induction tr arbitrary: dc) (auto simp: hashdb_insert_sorted)

lemma intersect_optimized_mset:
  assumes "sorted (map key smaller)"
  shows "\<exists>tr. intersect_optimized ins smaller larger s = Some (fold ins tr s) \<and>
       mset tr = filter_mset (\<lambda>e. key e \<in> key ` set larger) (mset smaller) +
                 filter_mset (\<lambda>e. key e \<in> key ` set smaller) (mset larger)"
  using intersect_loop_mset [OF assms, of 0 larger ins s]
  by (simp add: intersect_optimized_def)

lemma intersect_optimized_set:
  assumes "sorted (map key smaller)"
  shows "\<exists>dc. intersect_optimized hashdb_insert smaller larger (db, ch) = Some dc \<and>
       set (fst dc) = set db \<union> set (filter (\<lambda>e. key e \<in> key ` set larger) smaller)
                             \<union> set (filter (\<lambda>e. key e \<in> key ` set smaller) larger) \<and>
       (sorted (map key db) \<longrightarrow> sorted (map key (fst dc)))"
proof -
  from intersect_optimized_mset [OF assms, of hashdb_insert larger "(db, ch)"] obtain tr where
    tr: "intersect_optimized hashdb_insert smaller larger (db, ch) =
           Some (fold hashdb_insert tr (db, ch))"
    "mset tr = filter_mset (\<lambda>e. key e \<in> key ` set larger) (mset smaller) +
               filter_mset (\<lambda>e. key e \<in> key ` set smaller) (mset larger)"
    by blast
  from tr(2) have "set_mset (mset tr) =
      set_mset (filter_mset (\<lambda>e. key e \<in> key ` set larger) (mset smaller) +
               filter_mset (\<lambda>e. key e \<in> key ` set smaller) (mset larger))"
    by simp
  then have "set tr = set (filter (\<lambda>e. key e \<in> key ` set larger) smaller)
                    \<union> set (filter (\<lambda>e. key e \<in> key ` set smaller) larger)"
    by simp
  with tr(1) show ?thesis
    using fold_hashdb_insert_sorted [of "(db, ch)" tr]
    by (auto simp: fold_hashdb_insert_set)
qed

text \<open>
  C7.  With both inputs in key order, \<open>intersect_optimized\<close> inserts exactly the elements of
  the driver whose key occurs in the other database and the elements of the other
  database whose key occurs in the driver, each once.  \<open>intersect\<close> takes as driver the
  database with fewer elements, the first on a tie, and afterwards the third database
  holds what it held before and every element of either input whose key occurs in both.
\<close>

theorem intersect_copies_common_keys:
  assumes "sorted (map key (elements manager1))" and "sorted (map key (elements manager2))"
    and "require_compatibility manager1 manager2 manager3"
  shows "(\<forall>ins s. \<exists>tr.
            intersect_optimized ins (elements manager1) (elements manager2) s = Some (fold ins tr s) \<and>
            mset tr =
              filter_mset (\<lambda>e. key e \<in> key ` set (elements manager2)) (mset (elements manager1)) +
              filter_mset (\<lambda>e. key e \<in> key ` set (elements manager1)) (mset (elements manager2)))
       \<and> intersect manager1 manager2 manager3 =
           (case (if map_size (elements manager1) \<le> map_size (elements manager2)
                  then intersect_optimized hashdb_insert (elements manager1) (elements manager2)
                         (elements manager3, new_changes)
                  else intersect_optimized hashdb_insert (elements manager2) (elements manager1)
                         (elements manager3, new_changes)) of
              None \<Rightarrow> Inl Iterator_past_end
            | Some dc \<Rightarrow> Inr (manager3\<lparr>elements := fst dc\<rparr>, snd dc))
       \<and> (\<exists>m3 ch. intersect manager1 manager2 manager3 = Inr (m3, ch) \<and>
            set (elements m3) =
              set (elements manager3)
              \<union> set (filter (\<lambda>e. key e \<in> key ` set (elements manager2)) (elements manager1))
              \<union> set (filter (\<lambda>e. key e \<in> key ` set (elements manager1)) (elements manager2)))"
proof (intro conjI allI)
  fix ins :: "'a hashdb_element_t \<Rightarrow> 'b \<Rightarrow> 'b" and s
  show "\<exists>tr. intersect_optimized ins (elements manager1) (elements manager2) s = Some (fold ins tr s) \<and>
            mset tr =
              filter_mset (\<lambda>e. key e \<in> key ` set (elements manager2)) (mset (elements manager1)) +
              filter_mset (\<lambda>e. key e \<in> key ` set (elements manager1)) (mset (elements manager2))"
    by (rule intersect_optimized_mset [OF assms(1)])
next
  show "intersect manager1 manager2 manager3 =
           (case (if map_size (elements manager1) \<le> map_size (elements manager2)
                  then intersect_optimized hashdb_insert (elements manager1) (elements manager2)
                         (elements manager3, new_changes)
                  else intersect_optimized hashdb_insert (elements manager2) (elements manager1)
                         (elements manager3, new_changes)) of
              None \<Rightarrow> Inl Iterator_past_end
            | Some dc \<Rightarrow> Inr (manager3\<lparr>elements := fst dc\<rparr>, snd dc))"
    using assms(3) by (simp add: intersect_def Let_def)
next
  let ?A = "elements manager1" and ?B = "elements manager2" and ?C = "elements manager3"
  show "\<exists>m3 ch. intersect manager1 manager2 manager3 = Inr (m3, ch) \<and>
            set (elements m3) = set ?C
              \<union> set (filter (\<lambda>e. key e \<in> key ` set ?B) ?A)
              \<union> set (filter (\<lambda>e. key e \<in> key ` set ?A) ?B)"
  proof (cases "map_size ?A \<le> map_size ?B")
    case True
    from intersect_optimized_set [OF assms(1), of ?B ?C new_changes] obtain dc where
      "intersect_optimized hashdb_insert ?A ?B (?C, new_changes) = Some dc"
      "set (fst dc) = set ?C \<union> set (filter (\<lambda>e. key e \<in> key ` set ?B) ?A)
                             \<union> set (filter (\<lambda>e. key e \<in> key ` set ?A) ?B)"
      by blast
    with True assms(3) show ?thesis
      by (simp add: intersect_def Let_def)
  next
    case False
    from intersect_optimized_set [OF assms(2), of ?A ?C new_changes] obtain dc where
      "intersect_optimized hashdb_insert ?B ?A (?C, new_changes) = Some dc"
      "set (fst dc) = set ?C \<union> set (filter (\<lambda>e. key e \<in> key ` set ?A) ?B)
                             \<union> set (filter (\<lambda>e. key e \<in> key ` set ?B) ?A)"
      by blast
    with False assms(3) show ?thesis
      by (auto simp: intersect_def Let_def)
  qed
qed

lemma example_compatible: "require_compatibility example_A example_B example_C"
  by (simp add: require_compatibility_def example_A_def example_B_def example_C_def example_db_def)

lemma example_sorted:
  "sorted (map key (elements example_A))" "sorted (map key (elements example_B))"
  by (simp_all add: example_A_def example_B_def example_db_def example_element_def)

theorem intersect_copies_common_keys_witness:
  "\<exists>m3 ch. intersect example_A example_B example_C = Inr (m3, ch) \<and>
     key ` set (elements m3) = {[2], [3]}"
proof -
  note t = intersect_copies_common_keys [OF example_sorted example_compatible]
  from t [THEN conjunct2, THEN conjunct2]
  obtain m3 ch where r: "intersect example_A example_B example_C = Inr (m3, ch)"
    and st: "set (elements m3) =
       set (elements example_C)
       \<union> set (filter (\<lambda>e. key e \<in> key ` set (elements example_B)) (elements example_A))
       \<union> set (filter (\<lambda>e. key e \<in> key ` set (elements example_A)) (elements example_B))"
    by (elim exE conjE)
  have "key ` set (elements m3) = {[2], [3]}"
    unfolding st
    by (simp add: example_A_def example_B_def example_C_def example_db_def example_element_def
        insert_commute)
  with r show ?thesis by (intro exI conjI)
qed

lemma nat_less_nibbles:
  "((a::nat) < b) = (a div 16 < b div 16 \<or> a div 16 = b div 16 \<and> a mod 16 < b mod 16)"
proof -
  have a: "a = 16 * (a div 16) + a mod 16" and b: "b = 16 * (b div 16) + b mod 16" by simp_all
  have ma: "a mod 16 < 16" and mb: "b mod 16 < 16" by simp_all
  show ?thesis
  proof (cases "a div 16 < b div 16")
    case True
    then have "16 * (a div 16) + 16 \<le> 16 * (b div 16)" by simp
    with a b ma have "a < b" by linarith
    with True show ?thesis by simp
  next
    case False
    show ?thesis
    proof (cases "a div 16 = b div 16")
      case True
      with a b have "(a < b) = (a mod 16 < b mod 16)" by linarith
      with True show ?thesis by simp
    next
      case ne: False
      with False have "b div 16 < a div 16" by simp
      then have "16 * (b div 16) + 16 \<le> 16 * (a div 16)" by simp
      with a b mb have "\<not> a < b" by linarith
      with False ne show ?thesis by simp
    qed
  qed
qed


lemma nat_eq_nibbles:
  "((a::nat) = b) = (a div 16 = b div 16 \<and> a mod 16 = b mod 16)"
  by (metis div_mult_mod_eq)

lemma hex_digit_code:
  assumes "n < 16"
  shows "(of_char (hex_digit n) :: nat) = (if n < 10 then 48 + n else 87 + n)"
proof -
  have "list_all (\<lambda>n. (of_char (hex_digit n) :: nat) = (if n < 10 then 48 + n else 87 + n))
      [0 ..< 16]"
    by code_simp
  with assms show ?thesis
    by (simp add: list_all_iff)
qed

lemma hex_digit_less:
  assumes "i < 16" "j < 16"
  shows "(hex_digit i < hex_digit j) = (i < j)"
proof -
  have "(hex_digit i < hex_digit j) =
      ((of_char (hex_digit i) :: nat) < of_char (hex_digit j))"
    by (simp add: less_char_def)
  also have "\<dots> = (i < j)"
    unfolding hex_digit_code [OF assms(1)] hex_digit_code [OF assms(2)]
    using assms by (simp split: if_splits)
  finally show ?thesis .
qed

lemma hex_digit_eq:
  assumes "i < 16" "j < 16"
  shows "(hex_digit i = hex_digit j) = (i = j)"
proof
  assume "hex_digit i = hex_digit j"
  then have a: "\<not> hex_digit i < hex_digit j" and b: "\<not> hex_digit j < hex_digit i"
    by simp_all
  from a hex_digit_less [OF assms] have "\<not> i < j" by blast
  moreover from b hex_digit_less [OF assms(2,1)] have "\<not> j < i" by blast
  ultimately show "i = j" by simp
qed simp


lemma hexdigest_le_iff:
  "length a = length b \<Longrightarrow> (hexdigest a \<le> hexdigest b) = (a \<le> b)"
proof (induction a b rule: list_induct2)
  case Nil
  then show ?case by (simp add: hexdigest_def)
next
  case (Cons x xs y ys)
  let ?xh = "unat x div 16" and ?xl = "unat x mod 16"
  let ?yh = "unat y div 16" and ?yl = "unat y mod 16"
  have "unat x < 256" "unat y < 256"
    using unsigned_less [of x, where ?'a = nat] unsigned_less [of y, where ?'a = nat] by simp_all
  then have ux: "?xh < 16" "?xl < 16" and uy: "?yh < 16" "?yl < 16"
    by simp_all
  have lt: "(x < y) = (?xh < ?yh \<or> ?xh = ?yh \<and> ?xl < ?yl)"
    unfolding word_less_nat_alt by (rule nat_less_nibbles)
  have eq: "(x = y) = (?xh = ?yh \<and> ?xl = ?yl)"
    unfolding word_unat_eq_iff by (rule nat_eq_nibbles)
  have tl: "(hexdigest xs \<le> hexdigest ys) = (xs \<le> ys)"
    using Cons.IH by simp
  have hd: "hexdigest (x # xs) = hex_digit ?xh # hex_digit ?xl # hexdigest xs"
    "hexdigest (y # ys) = hex_digit ?yh # hex_digit ?yl # hexdigest ys"
    by (simp_all add: hexdigest_def)
  have "(hexdigest (x # xs) \<le> hexdigest (y # ys)) =
      (hex_digit ?xh < hex_digit ?yh \<or>
       hex_digit ?xh = hex_digit ?yh \<and>
       (hex_digit ?xl < hex_digit ?yl \<or>
        hex_digit ?xl = hex_digit ?yl \<and> hexdigest xs \<le> hexdigest ys))"
    by (simp only: hd Cons_le_Cons)
  also have "\<dots> = (?xh < ?yh \<or> ?xh = ?yh \<and> (?xl < ?yl \<or> ?xl = ?yl \<and> xs \<le> ys))"
    by (simp only: tl hex_digit_less [OF ux(1) uy(1)] hex_digit_less [OF ux(2) uy(2)]
        hex_digit_eq [OF ux(1) uy(1)] hex_digit_eq [OF ux(2) uy(2)])
  also have "\<dots> = (x < y \<or> x = y \<and> xs \<le> ys)"
    unfolding lt eq by blast
  also have "\<dots> = (x # xs \<le> y # ys)"
    by (simp only: Cons_le_Cons)
  finally show ?case .
qed

lemma add_multiple_remaining_fold: "add_multiple_remaining ins it s = fold ins it s"
  by (induction it arbitrary: s) simp_all

lemma add_multiple_loops_Nil1: "add_multiple_loops ins [] db2 s = fold ins db2 s"
  by (simp add: add_multiple_loops_def add_multiple_remaining_fold)

lemma add_multiple_loops_Nil2: "add_multiple_loops ins db1 [] s = fold ins db1 s"
  by (cases db1) (simp_all add: add_multiple_loops_def add_multiple_remaining_fold)

lemma add_multiple_loops_Cons:
  "add_multiple_loops ins (e1 # it1) (e2 # it2) s =
     (if hexkey e1 \<le> hexkey e2
      then add_multiple_loops ins it1 (e2 # it2) (ins e1 s)
      else add_multiple_loops ins (e1 # it1) it2 (ins e2 s))"
  by (simp add: add_multiple_loops_def hexkey_def)

lemma add_multiple_loops_trace_Nil1:
  "sorted (map hexkey db2) \<Longrightarrow>
   \<exists>tr. add_multiple_loops ins [] db2 s = fold ins tr s \<and>
        mset tr = mset [] + mset db2 \<and>
        sorted (map hexkey tr) \<and>
        (\<forall>k. filter (\<lambda>e. k = hexkey e) tr =
               filter (\<lambda>e. k = hexkey e) [] @ filter (\<lambda>e. k = hexkey e) db2)"
  by (intro exI [of _ db2]) (simp add: add_multiple_loops_Nil1)

lemma add_multiple_loops_trace_Nil2:
  "sorted (map hexkey db1) \<Longrightarrow>
   \<exists>tr. add_multiple_loops ins db1 [] s = fold ins tr s \<and>
        mset tr = mset db1 + mset [] \<and>
        sorted (map hexkey tr) \<and>
        (\<forall>k. filter (\<lambda>e. k = hexkey e) tr =
               filter (\<lambda>e. k = hexkey e) db1 @ filter (\<lambda>e. k = hexkey e) [])"
  by (intro exI [of _ db1]) (simp add: add_multiple_loops_Nil2)

lemma add_multiple_loops_trace:
  "sorted (map hexkey db1) \<Longrightarrow> sorted (map hexkey db2) \<Longrightarrow>
   \<exists>tr. add_multiple_loops ins db1 db2 s = fold ins tr s \<and>
        mset tr = mset db1 + mset db2 \<and>
        sorted (map hexkey tr) \<and>
        (\<forall>k. filter (\<lambda>e. k = hexkey e) tr =
               filter (\<lambda>e. k = hexkey e) db1 @ filter (\<lambda>e. k = hexkey e) db2)"
proof (induction ins db1 db2 s rule: add_multiple_both.induct)
  case (1 ins e1 it1 e2 it2 s)
  show ?case
  proof (cases "hexkey e1 \<le> hexkey e2")
    case True
    from "1.prems" have s1: "sorted (map hexkey it1)" by simp
    from True have c: "hexdigest (key e1) \<le> hexdigest (key e2)" by (simp add: hexkey_def)
    from "1.IH"(1) [OF c s1 "1.prems"(2)] obtain tr where
      tr: "add_multiple_loops ins it1 (e2 # it2) (ins e1 s) = fold ins tr (ins e1 s)"
      "mset tr = mset it1 + mset (e2 # it2)"
      "sorted (map hexkey tr)"
      "\<forall>k. filter (\<lambda>e. k = hexkey e) tr =
            filter (\<lambda>e. k = hexkey e) it1 @ filter (\<lambda>e. k = hexkey e) (e2 # it2)"
      by blast
    from tr(2) have "set tr = set it1 \<union> set (e2 # it2)"
      by (metis set_mset_mset set_mset_union)
    with "1.prems" True have "\<forall>x\<in>set tr. hexkey e1 \<le> hexkey x" by auto
    with tr(3) have srt: "sorted (map hexkey (e1 # tr))" by simp
    have "add_multiple_loops ins (e1 # it1) (e2 # it2) s = fold ins (e1 # tr) s"
      using True tr(1) by (simp add: add_multiple_loops_Cons)
    moreover have "mset (e1 # tr) = mset (e1 # it1) + mset (e2 # it2)"
      using tr(2) by simp
    moreover have "\<forall>k. filter (\<lambda>e. k = hexkey e) (e1 # tr) =
        filter (\<lambda>e. k = hexkey e) (e1 # it1) @ filter (\<lambda>e. k = hexkey e) (e2 # it2)"
      using tr(4) by simp
    ultimately show ?thesis using srt by blast
  next
    case False
    from "1.prems" have s2: "sorted (map hexkey it2)" by simp
    from False have c: "\<not> hexdigest (key e1) \<le> hexdigest (key e2)" by (simp add: hexkey_def)
    from "1.IH"(2) [OF c "1.prems"(1) s2] obtain tr where
      tr: "add_multiple_loops ins (e1 # it1) it2 (ins e2 s) = fold ins tr (ins e2 s)"
      "mset tr = mset (e1 # it1) + mset it2"
      "sorted (map hexkey tr)"
      "\<forall>k. filter (\<lambda>e. k = hexkey e) tr =
            filter (\<lambda>e. k = hexkey e) (e1 # it1) @ filter (\<lambda>e. k = hexkey e) it2"
      by blast
    from tr(2) have "set tr = set (e1 # it1) \<union> set it2"
      by (metis set_mset_mset set_mset_union)
    with "1.prems" False have "\<forall>x\<in>set tr. hexkey e2 \<le> hexkey x" by auto
    with tr(3) have srt: "sorted (map hexkey (e2 # tr))" by simp
    from "1.prems"(1) False have "\<forall>x\<in>set (e1 # it1). hexkey e2 \<noteq> hexkey x" by auto
    then have none: "filter (\<lambda>e. hexkey e2 = hexkey e) (e1 # it1) = []"
      by (simp only: filter_empty_conv)
    have "add_multiple_loops ins (e1 # it1) (e2 # it2) s = fold ins (e2 # tr) s"
      using False tr(1) by (simp add: add_multiple_loops_Cons)
    moreover have "mset (e2 # tr) = mset (e1 # it1) + mset (e2 # it2)"
      using tr(2) by simp
    moreover have "\<forall>k. filter (\<lambda>e. k = hexkey e) (e2 # tr) =
        filter (\<lambda>e. k = hexkey e) (e1 # it1) @ filter (\<lambda>e. k = hexkey e) (e2 # it2)"
    proof
      fix k
      show "filter (\<lambda>e. k = hexkey e) (e2 # tr) =
        filter (\<lambda>e. k = hexkey e) (e1 # it1) @ filter (\<lambda>e. k = hexkey e) (e2 # it2)"
      proof (cases "k = hexkey e2")
        case True
        with none tr(4) show ?thesis by simp
      next
        case False
        with tr(4) show ?thesis by simp
      qed
    qed
    ultimately show ?thesis using srt by blast
  qed
qed (rule add_multiple_loops_trace_Nil1 add_multiple_loops_trace_Nil2; assumption)+

lemma add_multiple_loops_sort_hexkey:
  assumes "sorted (map hexkey db1)" and "sorted (map hexkey db2)"
  shows "add_multiple_loops ins db1 db2 s = fold ins (sort_key hexkey (db1 @ db2)) s"
proof -
  from add_multiple_loops_trace [OF assms, of ins s] obtain tr where
    tr: "add_multiple_loops ins db1 db2 s = fold ins tr s"
    "mset tr = mset db1 + mset db2"
    "sorted (map hexkey tr)"
    "\<forall>k. filter (\<lambda>e. k = hexkey e) tr =
          filter (\<lambda>e. k = hexkey e) db1 @ filter (\<lambda>e. k = hexkey e) db2"
    by blast
  have "sort_key hexkey (db1 @ db2) = tr"
  proof (rule properties_for_sort_key)
    show "mset tr = mset (db1 @ db2)" using tr(2) by simp
    show "sorted (map hexkey tr)" by (rule tr(3))
    fix k :: "'a hashdb_element_t"
    show "filter (\<lambda>x. hexkey k = hexkey x) tr = filter (\<lambda>x. hexkey k = hexkey x) (db1 @ db2)"
      using tr(4) by simp
  qed
  with tr(1) show ?thesis by simp
qed


lemma hexkey_le_iff:
  "length (key x) = length (key y) \<Longrightarrow> (hexkey x \<le> hexkey y) = (key x \<le> key y)"
  by (simp add: hexkey_def hexdigest_le_iff)

lemma hexkey_eq_iff:
  assumes "length (key x) = length (key y)"
  shows "(hexkey x = hexkey y) = (key x = key y)"
proof -
  have "(hexkey x = hexkey y) = (hexkey x \<le> hexkey y \<and> hexkey y \<le> hexkey x)"
    by (rule order.eq_iff)
  also have "\<dots> = (key x \<le> key y \<and> key y \<le> key x)"
    using assms by (simp only: hexkey_le_iff)
  also have "\<dots> = (key x = key y)"
    by (rule order.eq_iff [symmetric])
  finally show ?thesis .
qed



lemma sorted_hexkey_iff:
  assumes "\<forall>e\<in>set xs. length (key e) = n"
  shows "sorted (map hexkey xs) = sorted (map key xs)"
proof -
  have le: "(hexkey x \<le> hexkey y) = (key x \<le> key y)" if "x \<in> set xs" "y \<in> set xs" for x y
  proof -
    from that assms have "length (key x) = length (key y)" by simp
    then show ?thesis by (rule hexkey_le_iff)
  qed
  have "sorted_wrt (\<lambda>x y. hexkey x \<le> hexkey y) xs = sorted_wrt (\<lambda>x y. key x \<le> key y) xs"
  proof
    assume "sorted_wrt (\<lambda>x y. hexkey x \<le> hexkey y) xs"
    then show "sorted_wrt (\<lambda>x y. key x \<le> key y) xs"
      by (rule sorted_wrt_mono_rel [rotated]) (simp only: le)
  next
    assume "sorted_wrt (\<lambda>x y. key x \<le> key y) xs"
    then show "sorted_wrt (\<lambda>x y. hexkey x \<le> hexkey y) xs"
      by (rule sorted_wrt_mono_rel [rotated]) (simp only: le)
  qed
  then show ?thesis by (simp only: sorted_map)
qed


lemma sort_key_hexkey:
  assumes "\<forall>e\<in>set xs. length (key e) = n"
  shows "sort_key hexkey xs = sort_key key xs"
proof (rule sym, rule properties_for_sort_key)
  show "mset (sort_key hexkey xs) = mset xs" by (rule mset_sort)
next
  have "set (sort_key hexkey xs) = set xs" by (rule set_sort)
  with assms have "\<forall>e\<in>set (sort_key hexkey xs). length (key e) = n" by (simp only:)
  from sorted_hexkey_iff [OF this] sorted_sort_key [of hexkey xs]
  show "sorted (map key (sort_key hexkey xs))" by blast
next
  fix k :: "'a hashdb_element_t"
  assume "k \<in> set (sort_key hexkey xs)"
  then have "k \<in> set xs" by (simp only: set_sort)
  with assms have k: "length (key k) = n" by blast
  have eq: "(key k = key x) = (hexkey x = hexkey k)" if "x \<in> set xs" for x
  proof -
    from that assms k have "length (key x) = length (key k)" by simp
    from hexkey_eq_iff [OF this] show ?thesis by (simp only: eq_commute [of "key k"])
  qed
  have "filter (\<lambda>x. key k = key x) (sort_key hexkey xs) =
      filter (\<lambda>x. hexkey x = hexkey k) (sort_key hexkey xs)"
    by (rule filter_cong [OF refl]) (simp only: set_sort eq)
  also have "\<dots> = filter (\<lambda>x. hexkey x = hexkey k) xs"
    by (rule sort_key_stable)
  also have "\<dots> = filter (\<lambda>x. key k = key x) xs"
    by (rule filter_cong [OF refl]) (simp only: eq)
  finally show "filter (\<lambda>x. key k = key x) (sort_key hexkey xs) =
      filter (\<lambda>x. key k = key x) xs" .
qed

lemma add_multiple_loops_sort_key:
  assumes "sorted (map key db1)" and "sorted (map key db2)"
    and "\<forall>e\<in>set db1 \<union> set db2. length (key e) = n"
  shows "add_multiple_loops ins db1 db2 s = fold ins (sort_key key (db1 @ db2)) s"
proof -
  from assms(3) have w1: "\<forall>e\<in>set db1. length (key e) = n"
    and w2: "\<forall>e\<in>set db2. length (key e) = n"
    and w3: "\<forall>e\<in>set (db1 @ db2). length (key e) = n"
    by simp_all
  from assms(1) have "sorted (map hexkey db1)" by (simp only: sorted_hexkey_iff [OF w1])
  moreover from assms(2) have "sorted (map hexkey db2)" by (simp only: sorted_hexkey_iff [OF w2])
  ultimately have "add_multiple_loops ins db1 db2 s = fold ins (sort_key hexkey (db1 @ db2)) s"
    by (rule add_multiple_loops_sort_hexkey)
  then show ?thesis by (simp only: sort_key_hexkey [OF w3])
qed

lemma add_multiple_set:
  assumes "require_compatibility m1 m2 m3"
    and "add_multiple_loops hashdb_insert (elements m1) (elements m2) (elements m3, new_changes) =
           fold hashdb_insert tr (elements m3, new_changes)"
    and "set tr = set (elements m1) \<union> set (elements m2)"
  shows "\<exists>m3' ch. add_multiple m1 m2 m3 = Inr (m3', ch) \<and>
           set (elements m3') = set (elements m3) \<union> set (elements m1) \<union> set (elements m2) \<and>
           (sorted (map key (elements m3)) \<longrightarrow> sorted (map key (elements m3')))"
proof -
  let ?dc = "fold hashdb_insert tr (elements m3, new_changes)"
  have r: "add_multiple m1 m2 m3 = Inr (m3\<lparr>elements := fst ?dc\<rparr>, snd ?dc)"
    using assms(1,2) by (simp add: add_multiple_def Let_def)
  have st: "set (fst ?dc) = set (elements m3) \<union> set (elements m1) \<union> set (elements m2)"
    using assms(3) by (simp add: fold_hashdb_insert_set Un_assoc)
  have so: "sorted (map key (elements m3)) \<longrightarrow> sorted (map key (fst ?dc))"
    using fold_hashdb_insert_sorted [of "(elements m3, new_changes)" tr] by simp
  from r st so show ?thesis by simp
qed

text \<open>
  C8.  With both inputs in key order and keys of one width, the loops of \<open>add_multiple\<close>
  insert the elements of both databases in the order of a stable sort by key of the
  first database followed by the second: ascending by key, the first database's
  elements before the second's on equal keys, none left out.  Afterwards the third
  database holds what it held before and every element of both inputs, in key order.
\<close>

theorem add_multiple_ordered_merge:
  assumes "sorted (map key (elements m1))" and "sorted (map key (elements m2))"
    and "\<forall>e\<in>set (elements m1) \<union> set (elements m2). length (key e) = n"
    and "require_compatibility m1 m2 m3"
  shows "(\<forall>ins s. add_multiple_loops ins (elements m1) (elements m2) s =
                   fold ins (sort_key key (elements m1 @ elements m2)) s)
       \<and> (\<exists>m3' ch. add_multiple m1 m2 m3 = Inr (m3', ch) \<and>
             set (elements m3') = set (elements m3) \<union> set (elements m1) \<union> set (elements m2) \<and>
             (sorted (map key (elements m3)) \<longrightarrow> sorted (map key (elements m3'))))"
proof (rule conjI)
  show "\<forall>ins s. add_multiple_loops ins (elements m1) (elements m2) s =
                   fold ins (sort_key key (elements m1 @ elements m2)) s"
    by (intro allI) (rule add_multiple_loops_sort_key [OF assms(1-3)])
next
  have "set (sort_key key (elements m1 @ elements m2)) = set (elements m1) \<union> set (elements m2)"
    by simp
  with add_multiple_loops_sort_key [OF assms(1-3), of hashdb_insert "(elements m3, new_changes)"]
  show "\<exists>m3' ch. add_multiple m1 m2 m3 = Inr (m3', ch) \<and>
             set (elements m3') = set (elements m3) \<union> set (elements m1) \<union> set (elements m2) \<and>
             (sorted (map key (elements m3)) \<longrightarrow> sorted (map key (elements m3')))"
    by (rule add_multiple_set [OF assms(4)])
qed

lemma example_width:
  "\<forall>e\<in>set (elements example_A) \<union> set (elements example_B). length (key e) = 1"
  by (simp add: example_A_def example_B_def example_db_def example_element_def)

theorem add_multiple_ordered_merge_witness:
  "\<exists>m3 ch. add_multiple example_A example_B example_C = Inr (m3, ch) \<and>
     key ` set (elements m3) = {[1], [2], [3], [4]} \<and> sorted (map key (elements m3))"
proof -
  from add_multiple_ordered_merge [OF example_sorted example_width example_compatible]
  obtain m3 ch where r: "add_multiple example_A example_B example_C = Inr (m3, ch)"
    "set (elements m3) =
       set (elements example_C) \<union> set (elements example_A) \<union> set (elements example_B)"
    "sorted (map key (elements example_C)) \<longrightarrow> sorted (map key (elements m3))"
    by blast
  have k: "key ` set (elements m3) = {[1], [2], [3], [4]}"
    unfolding r(2)
    by (simp add: example_A_def example_B_def example_C_def example_db_def example_element_def
        insert_commute)
  from r(3) have s: "sorted (map key (elements m3))"
    by (simp add: example_C_def example_db_def)
  from r(1) k s show ?thesis by blast
qed

end
